theory Spec2Isabelle
  imports Main "HOL-Library.Multiset" "HOL-Library.List_Lexorder" "HOL-Library.Char_ord"
begin

section \<open>The LDAP tree of \<^verbatim>\<open>lia/tree.py\<close>\<close>

text \<open>
  The module builds a tree of \<^verbatim>\<open>LdapNode\<close> objects that point at one another (a parent
  reference upward, a dictionary of children downward) and mutates them in place. The
  objects live in an explicit store: a list of node records, a reference being the index
  of the node in that list. Allocating a node appends it to the store. Python compares
  nodes by identity, which is equality of references here. The logging calls change
  nothing and are left out.
\<close>

subsection \<open>Data\<close>

type_synonym ref = nat

text \<open>
  One element of the list that \<^verbatim>\<open>parse_dn\<close> of ldap3 returns: attribute name, value and
  the separator that follows (\<^verbatim>\<open>+\<close> inside a multi-valued RDN). The parser is a library
  outside this repository; a DN is represented by the component list the parser returns
  for it.
\<close>

type_synonym component = "string \<times> string \<times> string"

text \<open>
  The payload handed to \<^verbatim>\<open>add_node\<close>. The code reads its \<^verbatim>\<open>dn\<close> attribute and
  tests it with \<^verbatim>\<open>if node.data:\<close>, so the model keeps the DN and the value of Python's
  \<^verbatim>\<open>bool(data)\<close> (an object is falsy when its \<^verbatim>\<open>__bool__\<close> answers False or its
  \<^verbatim>\<open>__len__\<close> answers 0).
\<close>

record entry =
  dn :: "component list"
  truthy :: bool

datatype error =
    TreePetrifiedError
  | NodeNotEmptyError string
  | TypeError
  | AttributeError

record LdapNode =
  parent :: "ref option"
  children :: "string \<rightharpoonup> ref"
  descendants :: "ref set option"
  data :: "entry option"
  toplevel :: bool

record LdapTree =
  heap :: "LdapNode list"
  top_node :: ref
  nodes_with_data :: "ref set"
  branches :: "ref set"
  petrified :: bool

definition LdapNode_init :: "ref option \<Rightarrow> LdapNode" where
  "LdapNode_init p =
     \<lparr>parent = p, children = Map.empty, descendants = None, data = None, toplevel = True\<rparr>"

definition LdapTree_init :: LdapTree where
  "LdapTree_init =
     \<lparr>heap = [LdapNode_init None], top_node = 0, nodes_with_data = {}, branches = {},
      petrified = False\<rparr>"

text \<open>The test \<^verbatim>\<open>if node.data:\<close>: the field is not None and the payload is truthy.\<close>

definition holds_data :: "LdapNode \<Rightarrow> bool" where
  "holds_data nd = (case data nd of None \<Rightarrow> False | Some d \<Rightarrow> truthy d)"

subsection \<open>Path normalisation: \<^verbatim>\<open>_dn_to_path\<close>\<close>

text \<open>Python's \<^verbatim>\<open>sep.join(xs)\<close>.\<close>

fun join :: "string \<Rightarrow> string list \<Rightarrow> string" where
  "join sep [] = []"
| "join sep [x] = x"
| "join sep (x # y # ys) = x @ sep @ join sep (y # ys)"

text \<open>
  The loop of \<^verbatim>\<open>_dn_to_path\<close> over the components, with the two local lists
  \<^verbatim>\<open>path\<close> and \<^verbatim>\<open>rdn\<close>. \<^verbatim>\<open>sorted\<close> orders strings by code point; \<open>sort\<close> on
  \<open>string\<close> orders them by byte, which is the same order on UTF-8.
\<close>

fun dn_to_path_loop :: "component list \<Rightarrow> string list \<Rightarrow> string list \<Rightarrow> string list" where
  "dn_to_path_loop [] path rdn = path"
| "dn_to_path_loop ((a, v, s) # cs) path rdn =
     (let rdn1 = rdn @ [a @ ''='' @ v]
      in if s \<noteq> ''+'' then dn_to_path_loop cs (path @ [join ''+'' (sort rdn1)]) []
         else dn_to_path_loop cs path rdn1)"

text \<open>
  \<^verbatim>\<open>reversed(path)\<close> on a list gives a \<^verbatim>\<open>list_reverseiterator\<close>, not a list: an
  object that yields the remaining items once. \<^verbatim>\<open>reversed\<close> accepts a sequence only
  and raises TypeError on such an iterator.
\<close>

datatype py_path = PyList "string list" | ListReverseIterator "string list"

fun py_reversed :: "py_path \<Rightarrow> error + py_path" where
  "py_reversed (PyList xs) = Inr (ListReverseIterator (rev xs))"
| "py_reversed (ListReverseIterator xs) = Inl TypeError"

text \<open>The items an iteration over the object yields, and the object afterwards.\<close>

fun py_items :: "py_path \<Rightarrow> string list" where
  "py_items (PyList xs) = xs"
| "py_items (ListReverseIterator xs) = xs"

fun py_exhaust :: "py_path \<Rightarrow> py_path" where
  "py_exhaust (PyList xs) = PyList xs"
| "py_exhaust (ListReverseIterator xs) = ListReverseIterator []"

definition priv_dn_to_path :: "component list \<Rightarrow> error + py_path" where
  "priv_dn_to_path cs = py_reversed (PyList (dn_to_path_loop cs [] []))"

text \<open>
  \<^verbatim>\<open>NodeNotEmptyError.__init__\<close>: \<open>Inl\<close> when the constructor itself raises, \<open>Inr\<close>
  the exception object otherwise.
\<close>

definition NodeNotEmptyError_init :: "py_path \<Rightarrow> error + error" where
  "NodeNotEmptyError_init path =
     (case py_reversed path of
        Inl e \<Rightarrow> Inl e
      | Inr it \<Rightarrow> Inr (NodeNotEmptyError (join '','' (py_items it))))"

subsection \<open>Insertion: \<^verbatim>\<open>_add_node\<close> and \<^verbatim>\<open>add_node\<close>\<close>

text \<open>
  The \<^verbatim>\<open>for name in path\<close> loop: select or create the child, then clear the local
  \<^verbatim>\<open>toplevel\<close> (here \<open>tlev\<close>) when the node reached holds data.
\<close>

definition select_or_create :: "LdapTree \<Rightarrow> ref \<Rightarrow> string \<Rightarrow> LdapTree \<times> ref" where
  "select_or_create t node name =
     (case children (heap t ! node) name of
        Some c \<Rightarrow> (t, c)
      | None \<Rightarrow>
          (let new = length (heap t);
               h1 = heap t @ [LdapNode_init (Some node)];
               h2 = h1[node := (h1 ! node)\<lparr>children := (children (h1 ! node))(name \<mapsto> new)\<rparr>]
           in (t\<lparr>heap := h2\<rparr>, new)))"

fun descend :: "LdapTree \<Rightarrow> ref \<Rightarrow> bool \<Rightarrow> string list \<Rightarrow> LdapTree \<times> ref \<times> bool" where
  "descend t node tlev [] = (t, node, tlev)"
| "descend t node tlev (name # names) =
     (case select_or_create t node name of
        (t1, node1) \<Rightarrow>
          descend t1 node1 (if holds_data (heap t1 ! node1) then False else tlev) names)"

definition priv_add_node :: "LdapTree \<Rightarrow> entry \<Rightarrow> (error + ref) \<times> LdapTree" where
  "priv_add_node t d =
     (if petrified t then (Inl TreePetrifiedError, t)
      else case priv_dn_to_path (dn d) of
        Inl e \<Rightarrow> (Inl e, t)
      | Inr path \<Rightarrow>
          (case descend t (top_node t) True (py_items path) of
             (t1, node, tlev) \<Rightarrow>
               if holds_data (heap t1 ! node) then
                 (case NodeNotEmptyError_init (py_exhaust path) of
                    Inl e \<Rightarrow> (Inl e, t1)
                  | Inr e \<Rightarrow> (Inl e, t1))
               else
                 (Inr node,
                  t1\<lparr>heap := (heap t1)[node := (heap t1 ! node)\<lparr>data := Some d, toplevel := tlev\<rparr>],
                     nodes_with_data := insert node (nodes_with_data t1)\<rparr>)))"

text \<open>
  \<^verbatim>\<open>add_node\<close> has no return statement: its value is Python's None, the \<open>None\<close> of
  the result here.
\<close>

definition add_node :: "LdapTree \<Rightarrow> entry \<Rightarrow> bool \<Rightarrow> (error + ref option) \<times> LdapTree" where
  "add_node t d is_leaf =
     (case priv_add_node t d of
        (Inl e, t1) \<Rightarrow> (Inl e, t1)
      | (Inr node, t1) \<Rightarrow>
          if \<not> is_leaf then
            (Inr None,
             t1\<lparr>heap := (heap t1)[node := (heap t1 ! node)\<lparr>descendants := Some {}\<rparr>],
                branches := insert node (branches t1)\<rparr>)
          else (Inr None, t1))"

subsection \<open>Classification: \<^verbatim>\<open>_petrify\<close> and \<^verbatim>\<open>__iter__\<close>\<close>

text \<open>
  The \<^verbatim>\<open>while True\<close> loop of \<^verbatim>\<open>_petrify\<close> for one node, \<open>par\<close> being the local
  \<^verbatim>\<open>parent\<close>. Nothing in the loop bounds it, so it is a partial function: \<open>None\<close> is a
  walk that never ends. Reading \<^verbatim>\<open>parent.data\<close> on None raises AttributeError.
\<close>

partial_function (option) walk_up :: "LdapTree \<Rightarrow> ref \<Rightarrow> ref option \<Rightarrow> (error + LdapTree) option"
where
  "walk_up t node par =
     (if par = Some (top_node t) then Some (Inr t)
      else case par of
        None \<Rightarrow> Some (Inl AttributeError)
      | Some p \<Rightarrow>
          if holds_data (heap t ! p) \<and> descendants (heap t ! p) \<noteq> None then
            (let h1 = (heap t)[node := (heap t ! node)\<lparr>toplevel := False\<rparr>];
                 h2 = h1[p := (h1 ! p)\<lparr>descendants := map_option (insert node) (descendants (h1 ! p))\<rparr>]
             in Some (Inr (t\<lparr>heap := h2\<rparr>)))
          else walk_up t node (parent (heap t ! p)))"

text \<open>
  The \<^verbatim>\<open>for node in self.__nodes_with_data\<close> loop. Python fixes no order for the
  iteration over a set, so the order is an argument: a list that enumerates the set.
\<close>

fun petrify_loop :: "LdapTree \<Rightarrow> ref list \<Rightarrow> ((error + unit) \<times> LdapTree) option" where
  "petrify_loop t [] = Some (Inr (), t)"
| "petrify_loop t (node # nodes) =
     (if toplevel (heap t ! node) then
        (case walk_up t node (parent (heap t ! node)) of
           None \<Rightarrow> None
         | Some (Inl e) \<Rightarrow> Some (Inl e, t)
         | Some (Inr t1) \<Rightarrow> petrify_loop t1 nodes)
      else petrify_loop t nodes)"

definition priv_petrify :: "LdapTree \<Rightarrow> ref list \<Rightarrow> ((error + unit) \<times> LdapTree) option" where
  "priv_petrify t order =
     (case petrify_loop t order of
        None \<Rightarrow> None
      | Some (Inl e, t1) \<Rightarrow> Some (Inl e, t1)
      | Some (Inr u, t1) \<Rightarrow> Some (Inr (), t1\<lparr>petrified := True\<rparr>))"

text \<open>\<^verbatim>\<open>__iter__\<close>: the result is the set of branches.\<close>

definition iter :: "LdapTree \<Rightarrow> ref list \<Rightarrow> ((error + ref set) \<times> LdapTree) option" where
  "iter t order =
     (if \<not> petrified t then
        (case priv_petrify t order of
           None \<Rightarrow> None
         | Some (Inl e, t1) \<Rightarrow> Some (Inl e, t1)
         | Some (Inr u, t1) \<Rightarrow> Some (Inr (branches t1), t1))
      else Some (Inr (branches t), t))"

declare walk_up.simps [code]

subsection \<open>Notions used to state the properties\<close>

text \<open>The \<^verbatim>\<open>key=value\<close> string the loop builds for a component, and its separator.\<close>

definition pair_str :: "component \<Rightarrow> string" where
  "pair_str c = (case c of (a, v, s) \<Rightarrow> a @ ''='' @ v)"

definition separator :: "component \<Rightarrow> string" where
  "separator c = (case c of (a, v, s) \<Rightarrow> s)"

text \<open>The names that the iterator returned by \<^verbatim>\<open>_dn_to_path\<close> yields, root first.\<close>

definition normal_path :: "component list \<Rightarrow> string list" where
  "normal_path cs = rev (dn_to_path_loop cs [] [])"

text \<open>Following a path through the children dictionaries without creating anything.\<close>

fun resolve :: "LdapTree \<Rightarrow> ref \<Rightarrow> string list \<Rightarrow> ref option" where
  "resolve t node [] = Some node"
| "resolve t node (name # names) =
     (case children (heap t ! node) name of
        None \<Rightarrow> None
      | Some c \<Rightarrow> resolve t c names)"

text \<open>The nodes a path visits below its start, in the order of the descent.\<close>

fun path_nodes :: "LdapTree \<Rightarrow> ref \<Rightarrow> string list \<Rightarrow> ref list" where
  "path_nodes t node [] = []"
| "path_nodes t node (name # names) =
     (case children (heap t ! node) name of
        None \<Rightarrow> []
      | Some c \<Rightarrow> c # path_nodes t c names)"

text \<open>
  An ancestor qualifies as the enclosing branch when it holds data and is a branch (its
  \<^verbatim>\<open>descendants\<close> is a set, not None).
\<close>

definition qualifies :: "LdapTree \<Rightarrow> ref \<Rightarrow> bool" where
  "qualifies t p = (holds_data (heap t ! p) \<and> descendants (heap t ! p) \<noteq> None)"

text \<open>
  \<open>nearest_branch t n b\<close>: going up from \<open>n\<close> by the parent references, \<open>b\<close> is the first
  ancestor that qualifies, and the root is not met before it. \<open>no_branch_above t n\<close>: going
  up from \<open>n\<close>, the root is met and no ancestor before it qualifies.
\<close>

inductive nearest_branch :: "LdapTree \<Rightarrow> ref \<Rightarrow> ref \<Rightarrow> bool" for t where
  nb_here: "parent (heap t ! n) = Some p \<Longrightarrow> p \<noteq> top_node t \<Longrightarrow> qualifies t p \<Longrightarrow>
     nearest_branch t n p"
| nb_skip: "parent (heap t ! n) = Some p \<Longrightarrow> p \<noteq> top_node t \<Longrightarrow> \<not> qualifies t p \<Longrightarrow>
     nearest_branch t p b \<Longrightarrow> nearest_branch t n b"

inductive no_branch_above :: "LdapTree \<Rightarrow> ref \<Rightarrow> bool" for t where
  nba_root: "parent (heap t ! n) = Some (top_node t) \<Longrightarrow> no_branch_above t n"
| nba_skip: "parent (heap t ! n) = Some p \<Longrightarrow> p \<noteq> top_node t \<Longrightarrow> \<not> qualifies t p \<Longrightarrow>
     no_branch_above t p \<Longrightarrow> no_branch_above t n"

text \<open>
  The states a client can bring a tree into: it starts from \<^verbatim>\<open>LdapTree()\<close> and calls
  \<^verbatim>\<open>add_node\<close>, iterates, or runs the freeze pass; a call that raises leaves the state
  it had reached. The order of a pass enumerates \<^verbatim>\<open>__nodes_with_data\<close>.
\<close>

inductive reachable :: "LdapTree \<Rightarrow> bool" where
  r_init: "reachable LdapTree_init"
| r_add: "reachable t \<Longrightarrow> reachable (snd (add_node t d is_leaf))"
| r_iter: "reachable t \<Longrightarrow> set order = nodes_with_data t \<Longrightarrow> iter t order = Some (r, t1) \<Longrightarrow>
     reachable t1"
| r_petrify: "reachable t \<Longrightarrow> set order = nodes_with_data t \<Longrightarrow>
     priv_petrify t order = Some (u, t1) \<Longrightarrow> reachable t1"

text \<open>A sequence of \<^verbatim>\<open>add_node\<close> calls; the caller goes on after a call that raised.\<close>

fun run_adds :: "LdapTree \<Rightarrow> (entry \<times> bool) list \<Rightarrow> LdapTree" where
  "run_adds t [] = t"
| "run_adds t ((d, is_leaf) # cs) = run_adds (snd (add_node t d is_leaf)) cs"

text \<open>A sequence of calls of the two public operations, with what each call gave.\<close>

datatype call = AddNode entry bool | Iterate "ref list"

datatype outcome = AddResult "error + ref option" | IterResult "error + ref set"

fun run_calls :: "LdapTree \<Rightarrow> call list \<Rightarrow> (outcome list \<times> LdapTree) option" where
  "run_calls t [] = Some ([], t)"
| "run_calls t (AddNode d is_leaf # cs) =
     (case add_node t d is_leaf of
        (r, t1) \<Rightarrow> map_option (\<lambda>(rs, t2). (AddResult r # rs, t2)) (run_calls t1 cs))"
| "run_calls t (Iterate order # cs) =
     (case iter t order of
        None \<Rightarrow> None
      | Some (r, t1) \<Rightarrow> map_option (\<lambda>(rs, t2). (IterResult r # rs, t2)) (run_calls t1 cs))"

subsection \<open>Invariants of the store\<close>

text \<open>
  The root is node 0, has no parent and keeps its top-level flag; every other node has a
  parent allocated before it; a child found in a dictionary exists and points back at
  the node that lists it; the two registries hold exactly the nodes with a payload and
  the nodes with a descendant set.
\<close>

definition wf_tree :: "LdapTree \<Rightarrow> bool" where
  "wf_tree t \<longleftrightarrow>
     top_node t = 0 \<and> 0 < length (heap t) \<and> parent (heap t ! 0) = None \<and>
     toplevel (heap t ! 0) \<and>
     (\<forall>n < length (heap t). 0 < n \<longrightarrow> (\<exists>p < n. parent (heap t ! n) = Some p)) \<and>
     (\<forall>n < length (heap t). \<forall>k c. children (heap t ! n) k = Some c \<longrightarrow>
        c < length (heap t) \<and> parent (heap t ! c) = Some n) \<and>
     nodes_with_data t = {n. n < length (heap t) \<and> data (heap t ! n) \<noteq> None} \<and>
     branches t = {n. n < length (heap t) \<and> descendants (heap t ! n) \<noteq> None}"

text \<open>
  What a descent may change: it allocates nodes without payload and adds entries to
  dictionaries; everything else stays.
\<close>

definition extends :: "LdapTree \<Rightarrow> LdapTree \<Rightarrow> bool" where
  "extends t t' \<longleftrightarrow>
     length (heap t) \<le> length (heap t') \<and> top_node t' = top_node t \<and>
     nodes_with_data t' = nodes_with_data t \<and> branches t' = branches t \<and>
     petrified t' = petrified t \<and>
     (\<forall>n < length (heap t).
        parent (heap t' ! n) = parent (heap t ! n) \<and> data (heap t' ! n) = data (heap t ! n) \<and>
        descendants (heap t' ! n) = descendants (heap t ! n) \<and>
        toplevel (heap t' ! n) = toplevel (heap t ! n) \<and>
        (\<forall>k c. children (heap t ! n) k = Some c \<longrightarrow> children (heap t' ! n) k = Some c)) \<and>
     (\<forall>n. length (heap t) \<le> n \<and> n < length (heap t') \<longrightarrow>
        data (heap t' ! n) = None \<and> descendants (heap t' ! n) = None)"

text \<open>The two assignments of the freeze pass when the walk from \<open>node\<close> stops at \<open>p\<close>.\<close>

definition link :: "LdapTree \<Rightarrow> ref \<Rightarrow> ref \<Rightarrow> LdapTree" where
  "link t node p =
     (let h1 = (heap t)[node := (heap t ! node)\<lparr>toplevel := False\<rparr>];
          h2 = h1[p := (h1 ! p)\<lparr>descendants := map_option (insert node) (descendants (h1 ! p))\<rparr>]
      in t\<lparr>heap := h2\<rparr>)"

text \<open>
  What the freeze pass keeps: the shape of the tree, the payloads, which nodes are
  branches; descendant sets only grow and top-level flags are only cleared.
\<close>

definition same_shape :: "LdapTree \<Rightarrow> LdapTree \<Rightarrow> bool" where
  "same_shape t t' \<longleftrightarrow>
     length (heap t') = length (heap t) \<and> top_node t' = top_node t \<and>
     nodes_with_data t' = nodes_with_data t \<and> branches t' = branches t \<and>
     petrified t' = petrified t \<and>
     (\<forall>n < length (heap t).
        parent (heap t' ! n) = parent (heap t ! n) \<and> data (heap t' ! n) = data (heap t ! n) \<and>
        children (heap t' ! n) = children (heap t ! n) \<and>
        (descendants (heap t' ! n) = None \<longleftrightarrow> descendants (heap t ! n) = None) \<and>
        (\<forall>ds. descendants (heap t ! n) = Some ds \<longrightarrow>
           (\<exists>ds'. descendants (heap t' ! n) = Some ds' \<and> ds \<subseteq> ds')) \<and>
        (toplevel (heap t' ! n) \<longrightarrow> toplevel (heap t ! n)))"

text \<open>
  In a sequence of \<^verbatim>\<open>add_node\<close> calls run from the empty tree: call \<open>i\<close> returned
  (did not raise); the normalised path of the entry of call \<open>i\<close>.
\<close>

definition succeeded :: "(entry \<times> bool) list \<Rightarrow> nat \<Rightarrow> bool" where
  "succeeded cs i =
     (case fst (add_node (run_adds LdapTree_init (take i cs)) (fst (cs ! i)) (snd (cs ! i))) of
        Inl e \<Rightarrow> False
      | Inr r \<Rightarrow> True)"

definition path_of :: "(entry \<times> bool) list \<Rightarrow> nat \<Rightarrow> string list" where
  "path_of cs i = normal_path (dn (fst (cs ! i)))"

text \<open>
  While all payloads are truthy: the tree is well formed and not frozen, every payload in
  it is truthy, and a node with a descendant set has a payload.
\<close>

definition truthy_tree :: "LdapTree \<Rightarrow> bool" where
  "truthy_tree t \<longleftrightarrow>
     wf_tree t \<and> \<not> petrified t \<and>
     (\<forall>n < length (heap t). \<forall>e. data (heap t ! n) = Some e \<longrightarrow> truthy e) \<and>
     (\<forall>n < length (heap t). descendants (heap t ! n) \<noteq> None \<longrightarrow> data (heap t ! n) \<noteq> None)"

subsection \<open>Example entries and trees\<close>

definition entry_com :: entry where
  "entry_com = \<lparr>dn = [(''dc'', ''com'', '''')], truthy = True\<rparr>"

definition entry_example :: entry where
  "entry_example = \<lparr>dn = [(''dc'', ''example'', '',''), (''dc'', ''com'', '''')], truthy = True\<rparr>"

definition entry_alice :: entry where
  "entry_alice =
     \<lparr>dn = [(''cn'', ''alice'', '',''), (''ou'', ''people'', '',''), (''dc'', ''example'', '',''),
            (''dc'', ''com'', '''')],
      truthy = True\<rparr>"

text \<open>An entry with the empty DN (the DN of the root DSE): the parser returns no component.\<close>

definition entry_root :: entry where
  "entry_root = \<lparr>dn = [], truthy = True\<rparr>"

text \<open>A payload that Python takes for false.\<close>

definition entry_falsy :: entry where
  "entry_falsy = \<lparr>dn = [(''dc'', ''com'', '''')], truthy = False\<rparr>"

text \<open>
  \<^verbatim>\<open>cn=alice,ou=people,dc=example,dc=com\<close> and \<^verbatim>\<open>dc=example,dc=com\<close> added as
  leaves, then \<^verbatim>\<open>dc=com\<close> as a branch. The nodes are 1 (com), 2 (example), 3 (people,
  no payload) and 4 (alice).
\<close>

definition tree_family :: LdapTree where
  "tree_family =
     run_adds LdapTree_init [(entry_alice, True), (entry_example, True), (entry_com, False)]"

text \<open>\<^verbatim>\<open>dc=com\<close> added as a branch; an entry with the empty DN added as a leaf.\<close>

definition tree_com :: LdapTree where
  "tree_com = snd (add_node LdapTree_init entry_com False)"

definition tree_root :: LdapTree where
  "tree_root = snd (add_node LdapTree_init entry_root True)"

text \<open>The payload that Python takes for false added as a branch at \<^verbatim>\<open>dc=com\<close>.\<close>

definition tree_falsy :: LdapTree where
  "tree_falsy = snd (add_node LdapTree_init entry_falsy False)"

section \<open>Path normalisation\<close>

lemma sort_mset_cong: "mset xs = mset ys \<Longrightarrow> sort xs = sort (ys :: string list)"
  by (metis mset_sort properties_for_sort sorted_sort)

lemma loop_rdn_mset:
  "mset rdn = mset rdn' \<Longrightarrow> dn_to_path_loop cs path rdn = dn_to_path_loop cs path rdn'"
proof (induction cs arbitrary: path rdn rdn')
  case Nil
  show ?case by simp
next
  case (Cons c cs)
  obtain a v s where c: "c = (a, v, s)" by (cases c)
  have m: "mset (rdn @ [a @ ''='' @ v]) = mset (rdn' @ [a @ ''='' @ v])"
    using Cons.prems by simp
  show ?case
  proof (cases "s = ''+''")
    case True
    then show ?thesis using Cons.IH [OF m] c by simp
  next
    case False
    then show ?thesis using sort_mset_cong [OF m] c by simp
  qed
qed

lemma loop_plus_run:
  "\<forall>c \<in> set cs. separator c = ''+'' \<Longrightarrow>
   dn_to_path_loop (cs @ rest) path rdn = dn_to_path_loop rest path (rdn @ map pair_str cs)"
proof (induction cs arbitrary: rdn)
  case Nil
  show ?case by simp
next
  case (Cons c cs)
  obtain a v s where c: "c = (a, v, s)" by (cases c)
  from Cons.prems c have s: "s = ''+''" by (simp add: separator_def)
  from Cons.prems have "\<forall>c \<in> set cs. separator c = ''+''" by simp
  from Cons.IH [OF this] show ?case using c s by (simp add: pair_str_def)
qed

lemma loop_last:
  "dn_to_path_loop (c # rest) path rdn =
     (if separator c \<noteq> ''+'' then dn_to_path_loop rest (path @ [join ''+'' (sort (rdn @ [pair_str c]))]) []
      else dn_to_path_loop rest path (rdn @ [pair_str c]))"
  by (cases c) (simp add: separator_def pair_str_def)

lemma loop_level_perm:
  assumes seps: "map separator lv' = map separator lv"
    and pairs: "mset (map pair_str lv') = mset (map pair_str lv)"
    and inner: "\<forall>c \<in> set (butlast lv). separator c = ''+''"
  shows "dn_to_path_loop (lv' @ post) path rdn = dn_to_path_loop (lv @ post) path rdn"
proof (cases "lv = []")
  case True
  with seps show ?thesis by simp
next
  case False
  with seps have ne': "lv' \<noteq> []" by auto
  have len: "length lv' = length lv" using seps by (rule map_eq_imp_length_eq)
  have bl: "map separator (butlast lv') = map separator (butlast lv)"
    using seps by (simp add: map_butlast)
  have la: "separator (last lv') = separator (last lv)"
    using seps False ne' by (metis last_map)
  have inner': "\<forall>c \<in> set (butlast lv'). separator c = ''+''"
  proof -
    have "set (map separator (butlast lv')) = set (map separator (butlast lv))" using bl by simp
    then show ?thesis using inner by (metis (no_types, lifting) image_iff list.set_map)
  qed
  have m: "mset (rdn @ map pair_str (butlast lv') @ [pair_str (last lv')])
         = mset (rdn @ map pair_str (butlast lv) @ [pair_str (last lv)])"
  proof -
    have "map pair_str (butlast lv') @ [pair_str (last lv')] = map pair_str lv'"
      using ne' by (metis append_butlast_last_id list.simps(8,9) map_append)
    moreover have "map pair_str (butlast lv) @ [pair_str (last lv)] = map pair_str lv"
      using False by (metis append_butlast_last_id list.simps(8,9) map_append)
    ultimately show ?thesis using pairs by simp
  qed
  have d: "\<And>l. l \<noteq> [] \<Longrightarrow> \<forall>c \<in> set (butlast l). separator c = ''+'' \<Longrightarrow>
     dn_to_path_loop (l @ post) path rdn =
       (if separator (last l) \<noteq> ''+''
        then dn_to_path_loop post (path @ [join ''+'' (sort (rdn @ map pair_str (butlast l) @ [pair_str (last l)]))]) []
        else dn_to_path_loop post path (rdn @ map pair_str (butlast l) @ [pair_str (last l)]))"
  proof -
    fix l :: "component list"
    assume l: "l \<noteq> []" and i: "\<forall>c \<in> set (butlast l). separator c = ''+''"
    have e: "l @ post = butlast l @ (last l # post)" using l by simp
    have "dn_to_path_loop (l @ post) path rdn
             = dn_to_path_loop (last l # post) path (rdn @ map pair_str (butlast l))"
      unfolding e by (rule loop_plus_run [OF i])
    then show "dn_to_path_loop (l @ post) path rdn =
       (if separator (last l) \<noteq> ''+''
        then dn_to_path_loop post (path @ [join ''+'' (sort (rdn @ map pair_str (butlast l) @ [pair_str (last l)]))]) []
        else dn_to_path_loop post path (rdn @ map pair_str (butlast l) @ [pair_str (last l)]))"
      by (simp add: loop_last)
  qed
  show ?thesis
    using d [OF False inner] d [OF ne' inner'] la sort_mset_cong [OF m] loop_rdn_mset [OF m]
    by simp
qed

lemma loop_prefix_cong:
  "(\<And>path rdn. dn_to_path_loop xs path rdn = dn_to_path_loop ys path rdn) \<Longrightarrow>
   dn_to_path_loop (pre @ xs) path rdn = dn_to_path_loop (pre @ ys) path rdn"
proof (induction pre arbitrary: path rdn)
  case Nil
  then show ?case by simp
next
  case (Cons c pre)
  then show ?case by (simp add: loop_last)
qed

text \<open>
  C3. Take a DN and, inside one of its levels, a block \<open>lv\<close> of components (every
  component of the block but the last is followed by \<^verbatim>\<open>+\<close>). Writing the same
  \<^verbatim>\<open>key=value\<close> pairs of the block in another order, the separators staying where they
  are, gives the same normalised path; so the descent of \<^verbatim>\<open>_add_node\<close> reaches the same
  node from any tree, and the two paths resolve to the same node.
\<close>

theorem dn_to_path_pair_order:
  assumes "map separator lv' = map separator lv"
    and "mset (map pair_str lv') = mset (map pair_str lv)"
    and "\<forall>c \<in> set (butlast lv). separator c = ''+''"
  shows "priv_dn_to_path (pre @ lv' @ post) = priv_dn_to_path (pre @ lv @ post)
       \<and> descend t (top_node t) True (normal_path (pre @ lv' @ post))
         = descend t (top_node t) True (normal_path (pre @ lv @ post))
       \<and> resolve t (top_node t) (normal_path (pre @ lv' @ post))
         = resolve t (top_node t) (normal_path (pre @ lv @ post))"
proof -
  have "dn_to_path_loop (pre @ lv' @ post) [] [] = dn_to_path_loop (pre @ lv @ post) [] []"
    by (rule loop_prefix_cong) (rule loop_level_perm [OF assms])
  then show ?thesis by (simp add: priv_dn_to_path_def normal_path_def)
qed

theorem dn_to_path_pair_order_witness:
  "priv_dn_to_path ([(''cn'', ''x'', '','')] @ [(''sn'', ''b'', ''+''), (''cn'', ''a'', '','')] @ [(''dc'', ''com'', '''')])
     = priv_dn_to_path ([(''cn'', ''x'', '','')] @ [(''cn'', ''a'', ''+''), (''sn'', ''b'', '','')] @ [(''dc'', ''com'', '''')])
   \<and> priv_dn_to_path ([(''cn'', ''x'', '','')] @ [(''cn'', ''a'', ''+''), (''sn'', ''b'', '','')] @ [(''dc'', ''com'', '''')])
     = Inr (ListReverseIterator [''dc=com'', ''cn=a+sn=b'', ''cn=x''])"
proof -
  have 1: "map separator [(''sn'', ''b'', ''+''), (''cn'', ''a'', '','')]
         = map separator [(''cn'', ''a'', ''+''), (''sn'', ''b'', '','')]"
    by (simp add: separator_def)
  have 2: "mset (map pair_str [(''sn'', ''b'', ''+''), (''cn'', ''a'', '','')])
         = mset (map pair_str [(''cn'', ''a'', ''+''), (''sn'', ''b'', '','')])"
    by (simp add: pair_str_def)
  have 3: "\<forall>c \<in> set (butlast [(''cn'', ''a'', ''+''), (''sn'', ''b'', '','')]). separator c = ''+''"
    by (simp add: separator_def)
  have 4: "priv_dn_to_path ([(''cn'', ''x'', '','')] @ [(''cn'', ''a'', ''+''), (''sn'', ''b'', '','')] @ [(''dc'', ''com'', '''')])
     = Inr (ListReverseIterator [''dc=com'', ''cn=a+sn=b'', ''cn=x''])"
    by (simp add: priv_dn_to_path_def)
  show ?thesis
    using dn_to_path_pair_order [OF 1 2 3, of "[(''cn'', ''x'', '','')]" "[(''dc'', ''com'', '''')]" LdapTree_init] 4
    by simp
qed

section \<open>The store stays well formed\<close>

lemma wf_tree_init: "wf_tree LdapTree_init"
  by (auto simp: wf_tree_def LdapTree_init_def LdapNode_init_def nth_Cons')

lemma extends_refl: "extends t t"
  by (auto simp: extends_def)

lemma extends_trans: "extends t t1 \<Longrightarrow> extends t1 t2 \<Longrightarrow> extends t t2"
  unfolding extends_def
  by (intro conjI allI impI; (simp; fail)?) (metis le_trans less_le_trans not_le)+

lemma alloc_nth:
  assumes "node < length h" and "n \<le> length h"
  shows "((h @ [x])[node := f ((h @ [x]) ! node)]) ! n =
           (if n = node then f (h ! node) else if n = length h then x else h ! n)"
  using assms by (auto simp: nth_list_update nth_append)

lemma select_or_create_old:
  "children (heap t ! node) name = Some c \<Longrightarrow> select_or_create t node name = (t, c)"
  by (simp add: select_or_create_def)

lemma select_or_create_new:
  "children (heap t ! node) name = None \<Longrightarrow>
   select_or_create t node name =
     (t\<lparr>heap := (heap t @ [LdapNode_init (Some node)])
          [node := ((heap t @ [LdapNode_init (Some node)]) ! node)
             \<lparr>children := (children ((heap t @ [LdapNode_init (Some node)]) ! node))
                (name \<mapsto> length (heap t))\<rparr>]\<rparr>,
      length (heap t))"
  by (simp add: select_or_create_def Let_def)

lemma select_or_create_wf:
  assumes wf: "wf_tree t" and n: "node < length (heap t)"
    and s: "select_or_create t node name = (t1, c)"
  shows "wf_tree t1"
proof (cases "children (heap t ! node) name")
  case (Some c')
  with s wf show ?thesis by (simp add: select_or_create_old)
next
  case None
  let ?x = "LdapNode_init (Some node)"
  let ?f = "\<lambda>nd. nd\<lparr>children := (children nd)(name \<mapsto> length (heap t))\<rparr>"
  define h where "h = (heap t @ [?x])[node := ?f ((heap t @ [?x]) ! node)]"
  have t1: "t1 = t\<lparr>heap := h\<rparr>" and c: "c = length (heap t)"
    using s None by (auto simp: select_or_create_new h_def)
  have nth: "\<And>m. m \<le> length (heap t) \<Longrightarrow>
      h ! m = (if m = node then ?f (heap t ! node) else if m = length (heap t) then ?x else heap t ! m)"
    unfolding h_def using n by (rule alloc_nth)
  have len: "length h = Suc (length (heap t))" by (simp add: h_def)
  from wf have top: "top_node t = 0" and pos: "0 < length (heap t)"
    and p0: "parent (heap t ! 0) = None" and t0: "toplevel (heap t ! 0)"
    and par: "\<And>m. m < length (heap t) \<Longrightarrow> 0 < m \<Longrightarrow> \<exists>p < m. parent (heap t ! m) = Some p"
    and ch: "\<And>m k c. m < length (heap t) \<Longrightarrow> children (heap t ! m) k = Some c \<Longrightarrow>
               c < length (heap t) \<and> parent (heap t ! c) = Some m"
    and nd: "nodes_with_data t = {n. n < length (heap t) \<and> data (heap t ! n) \<noteq> None}"
    and br: "branches t = {n. n < length (heap t) \<and> descendants (heap t ! n) \<noteq> None}"
    unfolding wf_tree_def by blast+
  have 1: "parent (h ! 0) = None \<and> toplevel (h ! 0)"
    using nth [of 0] p0 t0 pos by (auto simp: LdapNode_init_def)
  have 2: "\<exists>p < m. parent (h ! m) = Some p" if "m < length h" "0 < m" for m
  proof (cases "m = length (heap t)")
    case True
    then show ?thesis using nth [of m] n by (auto simp: LdapNode_init_def)
  next
    case False
    with that len have "m < length (heap t)" by simp
    then show ?thesis using nth [of m] par [of m] that by auto
  qed
  have 3: "c' < length h \<and> parent (h ! c') = Some m"
    if "m < length h" "children (h ! m) k = Some c'" for m k c'
  proof (cases "m = length (heap t)")
    case True
    then show ?thesis using nth [of m] that n by (auto simp: LdapNode_init_def)
  next
    case False
    with that len have m: "m < length (heap t)" by simp
    show ?thesis
    proof (cases "m = node \<and> k = name")
      case True
      then have "c' = length (heap t)" using that nth [of m] m by auto
      then show ?thesis using nth [of c'] n True len by (auto simp: LdapNode_init_def)
    next
      case False
      then have "children (heap t ! m) k = Some c'"
        using that nth [of m] m by (auto split: if_splits)
      from ch [OF m this] show ?thesis using nth [of c'] len by auto
    qed
  qed
  have 4: "{n. n < length h \<and> data (h ! n) \<noteq> None} = {n. n < length (heap t) \<and> data (heap t ! n) \<noteq> None}"
  proof -
    have "(m < length h \<and> data (h ! m) \<noteq> None) \<longleftrightarrow> (m < length (heap t) \<and> data (heap t ! m) \<noteq> None)" for m
      using nth [of m] n len by (auto simp: LdapNode_init_def split: if_splits)
    then show ?thesis by simp
  qed
  have 5: "{n. n < length h \<and> descendants (h ! n) \<noteq> None} = {n. n < length (heap t) \<and> descendants (heap t ! n) \<noteq> None}"
  proof -
    have "(m < length h \<and> descendants (h ! m) \<noteq> None) \<longleftrightarrow> (m < length (heap t) \<and> descendants (heap t ! m) \<noteq> None)" for m
      using nth [of m] n len by (auto simp: LdapNode_init_def split: if_splits)
    then show ?thesis by simp
  qed
  show ?thesis
    unfolding wf_tree_def t1
    using top 1 2 3 4 5 nd br len by simp
qed

lemma select_or_create_extends:
  assumes n: "node < length (heap t)" and s: "select_or_create t node name = (t1, c)"
  shows "extends t t1"
proof (cases "children (heap t ! node) name")
  case (Some c')
  with s show ?thesis by (simp add: select_or_create_old extends_refl)
next
  case None
  let ?x = "LdapNode_init (Some node)"
  let ?f = "\<lambda>nd. nd\<lparr>children := (children nd)(name \<mapsto> length (heap t))\<rparr>"
  define h where "h = (heap t @ [?x])[node := ?f ((heap t @ [?x]) ! node)]"
  have t1: "t1 = t\<lparr>heap := h\<rparr>"
    using s None by (auto simp: select_or_create_new h_def)
  have nth: "\<And>m. m \<le> length (heap t) \<Longrightarrow>
      h ! m = (if m = node then ?f (heap t ! node) else if m = length (heap t) then ?x else heap t ! m)"
    unfolding h_def using n by (rule alloc_nth)
  have len: "length h = Suc (length (heap t))" by (simp add: h_def)
  have old: "parent (h ! m) = parent (heap t ! m) \<and> data (h ! m) = data (heap t ! m) \<and>
        descendants (h ! m) = descendants (heap t ! m) \<and>
        toplevel (h ! m) = toplevel (heap t ! m) \<and>
        (\<forall>k c. children (heap t ! m) k = Some c \<longrightarrow> children (h ! m) k = Some c)"
    if "m < length (heap t)" for m
    using nth [of m] that None by auto
  have new: "data (h ! m) = None \<and> descendants (h ! m) = None"
    if "length (heap t) \<le> m \<and> m < length h" for m
    using nth [of m] that len n by (auto simp: LdapNode_init_def)
  show ?thesis unfolding extends_def t1 using old new len by simp
qed

lemma select_or_create_child:
  assumes n: "node < length (heap t)" and s: "select_or_create t node name = (t1, c)"
  shows "children (heap t1 ! node) name = Some c"
proof (cases "children (heap t ! node) name")
  case (Some c')
  with s show ?thesis by (simp add: select_or_create_old)
next
  case None
  then show ?thesis using s n by (auto simp: select_or_create_new)
qed

lemma select_or_create_fresh:
  assumes n: "node < length (heap t)" and s: "select_or_create t node name = (t1, c)"
    and none: "children (heap t ! node) name = None"
  shows "c = length (heap t)" and "c < length (heap t1)" and "children (heap t1 ! c) = Map.empty"
    and "data (heap t1 ! c) = None"
  using s n none by (auto simp: select_or_create_new LdapNode_init_def nth_list_update nth_append)

lemma extends_length: "extends t t' \<Longrightarrow> n < length (heap t) \<Longrightarrow> n < length (heap t')"
  by (simp add: extends_def)

lemma extends_children:
  "extends t t' \<Longrightarrow> n < length (heap t) \<Longrightarrow> children (heap t ! n) k = Some c \<Longrightarrow>
   children (heap t' ! n) k = Some c"
  by (simp add: extends_def)

lemma extends_data: "extends t t' \<Longrightarrow> n < length (heap t) \<Longrightarrow> data (heap t' ! n) = data (heap t ! n)"
  by (simp add: extends_def)

lemma wf_child:
  "wf_tree t \<Longrightarrow> n < length (heap t) \<Longrightarrow> children (heap t ! n) k = Some c \<Longrightarrow>
   c < length (heap t) \<and> parent (heap t ! c) = Some n \<and> c \<noteq> 0"
  unfolding wf_tree_def by (metis option.distinct(1))

text \<open>
  The descent keeps the store well formed, only extends it, ends at the node the path
  resolves to, and clears the flag exactly when a node it went through holds data.
\<close>

lemma descend_facts:
  assumes "wf_tree t" and "node < length (heap t)"
    and "descend t node tlev names = (t', n', tlev')"
  shows "wf_tree t' \<and> n' < length (heap t') \<and> extends t t' \<and>
         resolve t' node names = Some n' \<and>
         tlev' = (tlev \<and> (\<forall>m \<in> set (path_nodes t' node names). \<not> holds_data (heap t' ! m)))"
  using assms
proof (induction names arbitrary: t node tlev)
  case Nil
  then show ?case by (simp add: extends_refl)
next
  case (Cons name names)
  obtain t1 c where s: "select_or_create t node name = (t1, c)"
    by (cases "select_or_create t node name")
  have wf1: "wf_tree t1" by (rule select_or_create_wf [OF Cons.prems(1,2) s])
  have ex1: "extends t t1" by (rule select_or_create_extends [OF Cons.prems(2) s])
  have ch1: "children (heap t1 ! node) name = Some c"
    by (rule select_or_create_child [OF Cons.prems(2) s])
  have n1: "node < length (heap t1)" by (rule extends_length [OF ex1 Cons.prems(2)])
  have c1: "c < length (heap t1)" using wf_child [OF wf1 n1 ch1] by simp
  let ?fl = "if holds_data (heap t1 ! c) then False else tlev"
  have d: "descend t1 c ?fl names = (t', n', tlev')"
    using Cons.prems(3) s by simp
  from Cons.IH [OF wf1 c1 d]
  have wf': "wf_tree t'" and n': "n' < length (heap t')" and ex': "extends t1 t'"
    and res: "resolve t' c names = Some n'"
    and fl: "tlev' = (?fl \<and> (\<forall>m \<in> set (path_nodes t' c names). \<not> holds_data (heap t' ! m)))"
    by blast+
  have ch': "children (heap t' ! node) name = Some c"
    by (rule extends_children [OF ex' n1 ch1])
  have hd: "holds_data (heap t' ! c) = holds_data (heap t1 ! c)"
    using extends_data [OF ex' c1] by (simp add: holds_data_def)
  show ?case
    using wf' n' extends_trans [OF ex1 ex'] res ch' fl hd by auto
qed

text \<open>A descent that starts at a node without children and payload ends at such a node.\<close>

lemma descend_fresh:
  assumes "wf_tree t" and "node < length (heap t)"
    and "children (heap t ! node) = Map.empty" and "data (heap t ! node) = None"
    and "descend t node tlev names = (t', n', tlev')"
  shows "data (heap t' ! n') = None"
  using assms
proof (induction names arbitrary: t node tlev)
  case Nil
  then show ?case by simp
next
  case (Cons name names)
  obtain t1 c where s: "select_or_create t node name = (t1, c)"
    by (cases "select_or_create t node name")
  have none: "children (heap t ! node) name = None" using Cons.prems(3) by simp
  have wf1: "wf_tree t1" by (rule select_or_create_wf [OF Cons.prems(1,2) s])
  note fr = select_or_create_fresh [OF Cons.prems(2) s none]
  let ?fl = "if holds_data (heap t1 ! c) then False else tlev"
  have d: "descend t1 c ?fl names = (t', n', tlev')"
    using Cons.prems(5) s by simp
  show ?case by (rule Cons.IH [OF wf1 fr(2) fr(3) fr(4) d])
qed

text \<open>A descent that ends at a node with a payload has created nothing.\<close>

lemma descend_to_data_unchanged:
  assumes "wf_tree t" and "node < length (heap t)"
    and "descend t node tlev names = (t', n', tlev')"
    and "data (heap t' ! n') \<noteq> None"
  shows "t' = t"
  using assms
proof (induction names arbitrary: t node tlev)
  case Nil
  then show ?case by simp
next
  case (Cons name names)
  obtain t1 c where s: "select_or_create t node name = (t1, c)"
    by (cases "select_or_create t node name")
  let ?fl = "if holds_data (heap t1 ! c) then False else tlev"
  have d: "descend t1 c ?fl names = (t', n', tlev')"
    using Cons.prems(3) s by simp
  have wf1: "wf_tree t1" by (rule select_or_create_wf [OF Cons.prems(1,2) s])
  show ?case
  proof (cases "children (heap t ! node) name")
    case None
    note fr = select_or_create_fresh [OF Cons.prems(2) s None]
    have "data (heap t' ! n') = None"
      by (rule descend_fresh [OF wf1 fr(2) fr(3) fr(4) d])
    with Cons.prems(4) show ?thesis by simp
  next
    case (Some c')
    then have e: "t1 = t" "c = c'" using s by (simp_all add: select_or_create_old)
    have "c < length (heap t)" using wf_child [OF Cons.prems(1,2) Some] e by simp
    from Cons.IH [OF Cons.prems(1) this] d e Cons.prems(4) show ?thesis by simp
  qed
qed

lemma resolve_valid:
  "wf_tree t \<Longrightarrow> node < length (heap t) \<Longrightarrow> resolve t node names = Some n \<Longrightarrow>
   n < length (heap t) \<and> (names \<noteq> [] \<longrightarrow> n \<noteq> 0)"
proof (induction names arbitrary: node)
  case Nil
  then show ?case by simp
next
  case (Cons name names)
  then obtain c where c: "children (heap t ! node) name = Some c" and r: "resolve t c names = Some n"
    by (auto split: option.splits)
  note wc = wf_child [OF Cons.prems(1,2) c]
  show ?case
  proof (cases names)
    case Nil
    with r wc show ?thesis by simp
  next
    case (Cons a list)
    with Cons.IH [of c] Cons.prems(1) wc r show ?thesis by simp
  qed
qed

lemma resolve_extends:
  "wf_tree t \<Longrightarrow> extends t t' \<Longrightarrow> node < length (heap t) \<Longrightarrow> resolve t node names = Some n \<Longrightarrow>
   resolve t' node names = Some n"
proof (induction names arbitrary: node)
  case Nil
  then show ?case by simp
next
  case (Cons name names)
  then obtain c where c: "children (heap t ! node) name = Some c" and r: "resolve t c names = Some n"
    by (auto split: option.splits)
  note wc = wf_child [OF Cons.prems(1,3) c]
  have "children (heap t' ! node) name = Some c"
    by (rule extends_children [OF Cons.prems(2,3) c])
  then show ?case using Cons.IH [OF Cons.prems(1,2) _ r] wc by simp
qed

text \<open>
  Assigning fields of one node keeps the store well formed when the parent and the
  children of the node stay, the root keeps its flag, and the registries follow.
\<close>

lemma wf_tree_update:
  assumes wf: "wf_tree t" and n: "node < length (heap t)"
    and p: "parent nd = parent (heap t ! node)" and c: "children nd = children (heap t ! node)"
    and r: "node = 0 \<longrightarrow> toplevel nd"
    and nwd: "nwd = (if data nd = None then nodes_with_data t - {node} else insert node (nodes_with_data t))"
    and br: "brs = (if descendants nd = None then branches t - {node} else insert node (branches t))"
  shows "wf_tree (t\<lparr>heap := (heap t)[node := nd], nodes_with_data := nwd, branches := brs\<rparr>)"
proof -
  define h where "h = (heap t)[node := nd]"
  have len: "length h = length (heap t)" by (simp add: h_def)
  have nth: "h ! m = (if m = node then nd else heap t ! m)" if "m < length (heap t)" for m
    using that by (simp add: h_def nth_list_update)
  from wf have top: "top_node t = 0" and pos: "0 < length (heap t)"
    and p0: "parent (heap t ! 0) = None" and t0: "toplevel (heap t ! 0)"
    and par: "\<And>m. m < length (heap t) \<Longrightarrow> 0 < m \<Longrightarrow> \<exists>p < m. parent (heap t ! m) = Some p"
    and ch: "\<And>m k c. m < length (heap t) \<Longrightarrow> children (heap t ! m) k = Some c \<Longrightarrow>
               c < length (heap t) \<and> parent (heap t ! c) = Some m"
    and nd: "nodes_with_data t = {n. n < length (heap t) \<and> data (heap t ! n) \<noteq> None}"
    and bs: "branches t = {n. n < length (heap t) \<and> descendants (heap t ! n) \<noteq> None}"
    unfolding wf_tree_def by blast+
  have pp: "parent (h ! m) = parent (heap t ! m)" if "m < length (heap t)" for m
    using nth [OF that] p by simp
  have cc: "children (h ! m) = children (heap t ! m)" if "m < length (heap t)" for m
    using nth [OF that] c by simp
  have 1: "parent (h ! 0) = None \<and> toplevel (h ! 0)"
    using nth [OF pos] pp [OF pos] p0 t0 r by simp
  have 2: "\<exists>p < m. parent (h ! m) = Some p" if "m < length h" "0 < m" for m
    using that par [of m] pp [of m] len by simp
  have 3: "c' < length h \<and> parent (h ! c') = Some m"
    if "m < length h" "children (h ! m) k = Some c'" for m k c'
  proof -
    have m: "m < length (heap t)" using that len by simp
    then have "children (heap t ! m) k = Some c'" using that cc by simp
    from ch [OF m this] show ?thesis using pp [of c'] len by simp
  qed
  have 4: "nwd = {n. n < length h \<and> data (h ! n) \<noteq> None}"
    unfolding nwd nd len using nth n by (auto split: if_splits)
  have 5: "brs = {n. n < length h \<and> descendants (h ! n) \<noteq> None}"
    unfolding br bs len using nth n by (auto split: if_splits)
  show ?thesis
    unfolding wf_tree_def h_def [symmetric]
    using top pos 1 2 3 4 5 len by simp
qed

text \<open>
  What \<^verbatim>\<open>_add_node\<close> comes to. The path handed to \<^verbatim>\<open>NodeNotEmptyError\<close> is the
  iterator that the loop has consumed, and \<^verbatim>\<open>reversed\<close> refuses it: the exception that
  leaves the method is a TypeError.
\<close>

lemma priv_add_node_unfold:
  "priv_add_node t d =
     (if petrified t then (Inl TreePetrifiedError, t)
      else case descend t (top_node t) True (normal_path (dn d)) of
        (t1, node, tlev) \<Rightarrow>
          if holds_data (heap t1 ! node) then (Inl TypeError, t1)
          else (Inr node,
                t1\<lparr>heap := (heap t1)[node := (heap t1 ! node)\<lparr>data := Some d, toplevel := tlev\<rparr>],
                   nodes_with_data := insert node (nodes_with_data t1)\<rparr>))"
  by (simp add: priv_add_node_def priv_dn_to_path_def normal_path_def NodeNotEmptyError_init_def
      split: prod.splits)

lemma priv_add_node_wf:
  assumes wf: "wf_tree t"
  shows "wf_tree (snd (priv_add_node t d))"
proof (cases "petrified t")
  case True
  then show ?thesis using wf by (simp add: priv_add_node_unfold)
next
  case False
  obtain t1 node tlev where d: "descend t (top_node t) True (normal_path (dn d)) = (t1, node, tlev)"
    by (cases "descend t (top_node t) True (normal_path (dn d))")
  have top: "top_node t < length (heap t)" using wf by (simp add: wf_tree_def)
  from descend_facts [OF wf top d]
  have wf1: "wf_tree t1" and n1: "node < length (heap t1)"
    and res: "resolve t1 (top_node t) (normal_path (dn d)) = Some node"
    and fl: "tlev = (True \<and> (\<forall>m \<in> set (path_nodes t1 (top_node t) (normal_path (dn d))).
               \<not> holds_data (heap t1 ! m)))"
    by blast+
  show ?thesis
  proof (cases "holds_data (heap t1 ! node)")
    case True
    then show ?thesis using False d wf1 by (simp add: priv_add_node_unfold)
  next
    case nh: False
    have r: "node = 0 \<longrightarrow> tlev"
    proof
      assume "node = 0"
      then have "normal_path (dn d) = []"
        using resolve_valid [OF wf1 _ res] top extends_length descend_facts [OF wf top d] by auto
      then show tlev using fl by simp
    qed
    have bs: "node \<in> branches t1 \<longleftrightarrow> descendants (heap t1 ! node) \<noteq> None"
      using wf1 n1 by (auto simp: wf_tree_def)
    have "wf_tree (t1\<lparr>heap := (heap t1)[node := (heap t1 ! node)\<lparr>data := Some d, toplevel := tlev\<rparr>],
                      nodes_with_data := insert node (nodes_with_data t1), branches := branches t1\<rparr>)"
      by (rule wf_tree_update [OF wf1 n1]) (use r bs in \<open>auto simp: insert_absorb\<close>)
    then show ?thesis using False d nh by (simp add: priv_add_node_unfold)
  qed
qed

lemma add_node_wf:
  assumes wf: "wf_tree t"
  shows "wf_tree (snd (add_node t d is_leaf))"
proof (cases "priv_add_node t d")
  case (Pair r t1)
  have wf1: "wf_tree t1" using priv_add_node_wf [OF wf, of d] Pair by simp
  show ?thesis
  proof (cases r)
    case (Inl e)
    then show ?thesis using Pair wf1 by (simp add: add_node_def)
  next
    case (Inr node)
    have n1: "node < length (heap t1)"
    proof -
      have "node \<in> nodes_with_data t1"
        using Pair Inr by (auto simp: priv_add_node_unfold split: if_splits prod.splits)
      then show ?thesis using wf1 by (simp add: wf_tree_def)
    qed
    have nd: "node \<in> nodes_with_data t1 \<longleftrightarrow> data (heap t1 ! node) \<noteq> None"
      using wf1 n1 by (auto simp: wf_tree_def)
    have t0: "node = 0 \<longrightarrow> toplevel (heap t1 ! node)" using wf1 by (simp add: wf_tree_def)
    have "wf_tree (t1\<lparr>heap := (heap t1)[node := (heap t1 ! node)\<lparr>descendants := Some {}\<rparr>],
                      nodes_with_data := nodes_with_data t1, branches := insert node (branches t1)\<rparr>)"
      by (rule wf_tree_update [OF wf1 n1]) (use t0 nd in \<open>auto simp: insert_absorb\<close>)
    then show ?thesis using Pair Inr wf1 by (simp add: add_node_def)
  qed
qed

section \<open>The freeze pass\<close>

lemma same_shape_refl: "same_shape t t"
  by (simp add: same_shape_def)

lemma same_shapeI:
  assumes "\<And>n. n < length (heap t) \<Longrightarrow>
        parent (heap t' ! n) = parent (heap t ! n) \<and> data (heap t' ! n) = data (heap t ! n) \<and>
        children (heap t' ! n) = children (heap t ! n) \<and>
        (descendants (heap t' ! n) = None \<longleftrightarrow> descendants (heap t ! n) = None) \<and>
        (\<forall>ds. descendants (heap t ! n) = Some ds \<longrightarrow>
           (\<exists>ds'. descendants (heap t' ! n) = Some ds' \<and> ds \<subseteq> ds')) \<and>
        (toplevel (heap t' ! n) \<longrightarrow> toplevel (heap t ! n))"
    and "length (heap t') = length (heap t) \<and> top_node t' = top_node t \<and>
     nodes_with_data t' = nodes_with_data t \<and> branches t' = branches t \<and> petrified t' = petrified t"
  shows "same_shape t t'"
  unfolding same_shape_def
  apply (intro conjI)
       apply (simp_all only: assms(2))
  apply (intro allI impI)
  apply (erule assms(1))
  done

lemma same_shape_trans:
  assumes a: "same_shape t t1" and b: "same_shape t1 t2"
  shows "same_shape t t2"
proof -
  have len: "length (heap t1) = length (heap t)" using a by (simp add: same_shape_def)
  have A: "parent (heap t2 ! n) = parent (heap t ! n) \<and> data (heap t2 ! n) = data (heap t ! n) \<and>
        children (heap t2 ! n) = children (heap t ! n) \<and>
        (descendants (heap t2 ! n) = None \<longleftrightarrow> descendants (heap t ! n) = None) \<and>
        (\<forall>ds. descendants (heap t ! n) = Some ds \<longrightarrow>
           (\<exists>ds'. descendants (heap t2 ! n) = Some ds' \<and> ds \<subseteq> ds')) \<and>
        (toplevel (heap t2 ! n) \<longrightarrow> toplevel (heap t ! n))"
    if n: "n < length (heap t)" for n
  proof -
    from a n have 1: "parent (heap t1 ! n) = parent (heap t ! n)" "data (heap t1 ! n) = data (heap t ! n)"
      "children (heap t1 ! n) = children (heap t ! n)"
      "descendants (heap t1 ! n) = None \<longleftrightarrow> descendants (heap t ! n) = None"
      "\<And>ds. descendants (heap t ! n) = Some ds \<Longrightarrow> \<exists>ds'. descendants (heap t1 ! n) = Some ds' \<and> ds \<subseteq> ds'"
      "toplevel (heap t1 ! n) \<Longrightarrow> toplevel (heap t ! n)"
      unfolding same_shape_def by blast+
    from b n len have 2: "parent (heap t2 ! n) = parent (heap t1 ! n)" "data (heap t2 ! n) = data (heap t1 ! n)"
      "children (heap t2 ! n) = children (heap t1 ! n)"
      "descendants (heap t2 ! n) = None \<longleftrightarrow> descendants (heap t1 ! n) = None"
      "\<And>ds. descendants (heap t1 ! n) = Some ds \<Longrightarrow> \<exists>ds'. descendants (heap t2 ! n) = Some ds' \<and> ds \<subseteq> ds'"
      "toplevel (heap t2 ! n) \<Longrightarrow> toplevel (heap t1 ! n)"
      unfolding same_shape_def by simp_all
    have "\<exists>ds'. descendants (heap t2 ! n) = Some ds' \<and> ds \<subseteq> ds'"
      if "descendants (heap t ! n) = Some ds" for ds
    proof -
      from 1(5) [OF that] obtain d1 where d1: "descendants (heap t1 ! n) = Some d1" "ds \<subseteq> d1" by blast
      from 2(5) [OF d1(1)] obtain d2 where "descendants (heap t2 ! n) = Some d2" "d1 \<subseteq> d2" by blast
      with d1 show ?thesis by auto
    qed
    then show ?thesis using 1(1-4,6) 2(1-4,6) by simp
  qed
  have B: "length (heap t2) = length (heap t) \<and> top_node t2 = top_node t \<and>
     nodes_with_data t2 = nodes_with_data t \<and> branches t2 = branches t \<and> petrified t2 = petrified t"
    using a b by (simp add: same_shape_def)
  show ?thesis by (rule same_shapeI [OF A B])
qed

lemma link_nth:
  assumes "node < length (heap t)" and "p < length (heap t)" and "m < length (heap t)"
  shows "heap (link t node p) ! m =
     (if m = p then
        (if p = node then (heap t ! node)\<lparr>toplevel := False\<rparr> else heap t ! p)
          \<lparr>descendants := map_option (insert node)
             (descendants (if p = node then (heap t ! node)\<lparr>toplevel := False\<rparr> else heap t ! p))\<rparr>
      else if m = node then (heap t ! node)\<lparr>toplevel := False\<rparr>
      else heap t ! m)"
  using assms by (simp add: link_def Let_def nth_list_update)

lemma link_fields:
  assumes "node < length (heap t)" and "p < length (heap t)" and "m < length (heap t)"
  shows "parent (heap (link t node p) ! m) = parent (heap t ! m)"
    and "data (heap (link t node p) ! m) = data (heap t ! m)"
    and "children (heap (link t node p) ! m) = children (heap t ! m)"
    and "descendants (heap (link t node p) ! m) =
           (if m = p then map_option (insert node) (descendants (heap t ! m)) else descendants (heap t ! m))"
    and "toplevel (heap (link t node p) ! m) = (m \<noteq> node \<and> toplevel (heap t ! m))"
  using link_nth [OF assms] by auto

lemma link_frame:
  "length (heap (link t node p)) = length (heap t)" "top_node (link t node p) = top_node t"
  "nodes_with_data (link t node p) = nodes_with_data t" "branches (link t node p) = branches t"
  "petrified (link t node p) = petrified t"
  by (simp_all add: link_def Let_def)

lemma link_same_shape:
  assumes "node < length (heap t)" and "p < length (heap t)"
  shows "same_shape t (link t node p)"
proof (rule same_shapeI)
  fix n assume n: "n < length (heap t)"
  note f = link_fields [OF assms n]
  show "parent (heap (link t node p) ! n) = parent (heap t ! n) \<and>
        data (heap (link t node p) ! n) = data (heap t ! n) \<and>
        children (heap (link t node p) ! n) = children (heap t ! n) \<and>
        (descendants (heap (link t node p) ! n) = None \<longleftrightarrow> descendants (heap t ! n) = None) \<and>
        (\<forall>ds. descendants (heap t ! n) = Some ds \<longrightarrow>
           (\<exists>ds'. descendants (heap (link t node p) ! n) = Some ds' \<and> ds \<subseteq> ds')) \<and>
        (toplevel (heap (link t node p) ! n) \<longrightarrow> toplevel (heap t ! n))"
    unfolding f by auto
next
  show "length (heap (link t node p)) = length (heap t) \<and> top_node (link t node p) = top_node t \<and>
     nodes_with_data (link t node p) = nodes_with_data t \<and> branches (link t node p) = branches t \<and>
     petrified (link t node p) = petrified t"
    by (simp add: link_frame)
qed

lemma same_shape_fields:
  assumes "same_shape t t'" and "n < length (heap t)"
  shows "parent (heap t' ! n) = parent (heap t ! n)" and "data (heap t' ! n) = data (heap t ! n)"
    and "children (heap t' ! n) = children (heap t ! n)"
    and "descendants (heap t' ! n) = None \<longleftrightarrow> descendants (heap t ! n) = None"
    and "toplevel (heap t' ! n) \<Longrightarrow> toplevel (heap t ! n)"
  using assms unfolding same_shape_def by blast+

lemma same_shape_frame:
  assumes "same_shape t t'"
  shows "length (heap t') = length (heap t)" and "top_node t' = top_node t"
    and "nodes_with_data t' = nodes_with_data t" and "branches t' = branches t"
    and "petrified t' = petrified t"
  using assms unfolding same_shape_def by blast+

lemma same_shape_descendants:
  assumes "same_shape t t'" and "n < length (heap t)" and "descendants (heap t ! n) = Some ds"
  shows "\<exists>ds'. descendants (heap t' ! n) = Some ds' \<and> ds \<subseteq> ds'"
  using assms unfolding same_shape_def by blast

lemma same_shape_wf:
  assumes wf: "wf_tree t" and sh: "same_shape t t'" and t0: "toplevel (heap t' ! 0)"
  shows "wf_tree t'"
proof -
  note fr = same_shape_frame [OF sh]
  note fl = same_shape_fields [OF sh]
  from wf have top: "top_node t = 0" and pos: "0 < length (heap t)"
    and p0: "parent (heap t ! 0) = None"
    and par: "\<And>m. m < length (heap t) \<Longrightarrow> 0 < m \<Longrightarrow> \<exists>p < m. parent (heap t ! m) = Some p"
    and ch: "\<And>m k c. m < length (heap t) \<Longrightarrow> children (heap t ! m) k = Some c \<Longrightarrow>
               c < length (heap t) \<and> parent (heap t ! c) = Some m"
    and nd: "nodes_with_data t = {n. n < length (heap t) \<and> data (heap t ! n) \<noteq> None}"
    and bs: "branches t = {n. n < length (heap t) \<and> descendants (heap t ! n) \<noteq> None}"
    unfolding wf_tree_def by blast+
  have 2: "\<exists>p < m. parent (heap t' ! m) = Some p" if "m < length (heap t')" "0 < m" for m
    using that par [of m] fl(1) [of m] fr(1) by simp
  have 3: "c' < length (heap t') \<and> parent (heap t' ! c') = Some m"
    if "m < length (heap t')" "children (heap t' ! m) k = Some c'" for m k c'
  proof -
    have m: "m < length (heap t)" using that fr(1) by simp
    then have "children (heap t ! m) k = Some c'" using that fl(3) by simp
    from ch [OF m this] show ?thesis using fl(1) [of c'] fr(1) by simp
  qed
  have 4: "nodes_with_data t' = {n. n < length (heap t') \<and> data (heap t' ! n) \<noteq> None}"
    unfolding fr nd using fl(2) by auto
  have 5: "branches t' = {n. n < length (heap t') \<and> descendants (heap t' ! n) \<noteq> None}"
  proof -
    have "(n < length (heap t) \<and> descendants (heap t' ! n) \<noteq> None) \<longleftrightarrow>
          (n < length (heap t) \<and> descendants (heap t ! n) \<noteq> None)" for n
      by (cases "n < length (heap t)") (simp_all add: fl(4))
    then show ?thesis unfolding fr bs by simp
  qed
  show ?thesis
    unfolding wf_tree_def
    using top pos p0 t0 2 3 4 5 fr(1,2) fl(1) [OF pos] by simp
qed

lemma link_wf:
  assumes wf: "wf_tree t" and n: "node < length (heap t)" and p: "p < length (heap t)"
    and n0: "node \<noteq> 0"
  shows "wf_tree (link t node p)"
proof -
  have "toplevel (heap (link t node p) ! 0)"
    using link_fields(5) [OF n p, of 0] wf n0 by (simp add: wf_tree_def)
  then show ?thesis using wf link_same_shape [OF n p] by (rule same_shape_wf [rotated 2])
qed

lemma walk_up_top: "walk_up t node (Some (top_node t)) = Some (Inr t)"
  by (subst walk_up.simps) simp

lemma walk_up_None: "walk_up t node None = Some (Inl AttributeError)"
  by (subst walk_up.simps) simp

lemma walk_up_found:
  "p \<noteq> top_node t \<Longrightarrow> qualifies t p \<Longrightarrow> walk_up t node (Some p) = Some (Inr (link t node p))"
  by (subst walk_up.simps) (simp add: qualifies_def link_def Let_def)

lemma walk_up_skip:
  "p \<noteq> top_node t \<Longrightarrow> \<not> qualifies t p \<Longrightarrow>
   walk_up t node (Some p) = walk_up t node (parent (heap t ! p))"
  by (subst walk_up.simps) (auto simp: qualifies_def)

lemma nearest_branch_step:
  "nearest_branch t n b \<longleftrightarrow>
     (\<exists>p. parent (heap t ! n) = Some p \<and> p \<noteq> top_node t \<and>
          (if qualifies t p then b = p else nearest_branch t p b))"
  by (subst nearest_branch.simps) auto

lemma no_branch_above_step:
  "no_branch_above t n \<longleftrightarrow>
     (\<exists>p. parent (heap t ! n) = Some p \<and>
          (p = top_node t \<or> (\<not> qualifies t p \<and> no_branch_above t p)))"
  by (subst no_branch_above.simps) auto

lemma nearest_branch_unique:
  "nearest_branch t n b \<Longrightarrow> nearest_branch t n b' \<Longrightarrow> b = b'"
proof (induction arbitrary: b' rule: nearest_branch.induct)
  case (nb_here n p)
  from nb_here.prems nb_here.hyps show ?case
    by (simp add: nearest_branch_step [of t n b'])
next
  case (nb_skip n p b)
  from nb_skip.prems nb_skip.hyps(1-3) have "nearest_branch t p b'"
    by (simp add: nearest_branch_step [of t n b'])
  then show ?case by (rule nb_skip.IH)
qed

lemma nearest_branch_excludes:
  "nearest_branch t n b \<Longrightarrow> \<not> no_branch_above t n"
proof (induction rule: nearest_branch.induct)
  case (nb_here n p)
  then show ?case by (simp add: no_branch_above_step [of t n])
next
  case (nb_skip n p b)
  from nb_skip.hyps(1-3) nb_skip.IH show ?case by (simp add: no_branch_above_step [of t n])
qed

lemma wf_parent:
  assumes wf: "wf_tree t" and n: "n < length (heap t)" and p: "parent (heap t ! n) = Some p"
  shows "p < n"
proof (cases "n = 0")
  case True
  with wf p show ?thesis by (simp add: wf_tree_def)
next
  case False
  then have "\<exists>q < n. parent (heap t ! n) = Some q" using wf n by (simp add: wf_tree_def)
  with p show ?thesis by auto
qed

lemma nearest_branch_valid:
  "nearest_branch t n b \<Longrightarrow> wf_tree t \<Longrightarrow> n < length (heap t) \<Longrightarrow>
   b < n \<and> b \<noteq> top_node t \<and> qualifies t b"
proof (induction rule: nearest_branch.induct)
  case (nb_here n p)
  have "p < n" by (rule wf_parent [OF nb_here.prems nb_here.hyps(1)])
  then show ?case using nb_here.hyps by simp
next
  case (nb_skip n p b)
  have pn: "p < n" by (rule wf_parent [OF nb_skip.prems nb_skip.hyps(1)])
  then have "p < length (heap t)" using nb_skip.prems(2) by simp
  from nb_skip.IH [OF nb_skip.prems(1) this] pn show ?case by simp
qed

text \<open>
  In a well-formed store the walk from a node other than the root ends: at the root,
  leaving the state as it is, or at the nearest branch, with the two assignments.
\<close>

lemma walk_up_result:
  assumes wf: "wf_tree t"
  shows "n < length (heap t) \<Longrightarrow> parent (heap t ! n) = Some p \<Longrightarrow>
     (no_branch_above t n \<and> walk_up t node (Some p) = Some (Inr t)) \<or>
     (\<exists>b. nearest_branch t n b \<and> walk_up t node (Some p) = Some (Inr (link t node b)))"
proof (induction n arbitrary: p rule: less_induct)
  case (less n)
  have pn: "p < n" by (rule wf_parent [OF wf less.prems])
  show ?case
  proof (cases "p = top_node t")
    case True
    then show ?thesis using less.prems(2) nba_root [of t n] walk_up_top [of t node] by simp
  next
    case nt: False
    show ?thesis
    proof (cases "qualifies t p")
      case True
      then show ?thesis
        using nb_here [OF less.prems(2) nt] walk_up_found [OF nt] by blast
    next
      case nq: False
      have pl: "p < length (heap t)" using pn less.prems(1) by simp
      have "0 < p" using nt wf by (simp add: wf_tree_def)
      then obtain q where q: "parent (heap t ! p) = Some q"
        using wf pl unfolding wf_tree_def by blast
      have sk: "walk_up t node (Some p) = walk_up t node (Some q)"
        using walk_up_skip [OF nt nq] q by simp
      from less.IH [OF pn pl q] show ?thesis
      proof
        assume "no_branch_above t p \<and> walk_up t node (Some q) = Some (Inr t)"
        then show ?thesis using nba_skip [OF less.prems(2) nt nq] sk by simp
      next
        assume "\<exists>b. nearest_branch t p b \<and> walk_up t node (Some q) = Some (Inr (link t node b))"
        then show ?thesis using nb_skip [OF less.prems(2) nt nq] sk by auto
      qed
    qed
  qed
qed


lemma qualifies_same_shape:
  "same_shape t t' \<Longrightarrow> p < length (heap t) \<Longrightarrow> qualifies t' p = qualifies t p"
  using same_shape_fields(2,4) [of t t' p] by (simp add: qualifies_def holds_data_def)

lemma nearest_branch_same_shape:
  "nearest_branch t n b \<Longrightarrow> wf_tree t \<Longrightarrow> same_shape t t' \<Longrightarrow> n < length (heap t) \<Longrightarrow>
   nearest_branch t' n b"
proof (induction rule: nearest_branch.induct)
  case (nb_here n p)
  have pl: "p < length (heap t)"
    using wf_parent [OF nb_here.prems(1,3) nb_here.hyps(1)] nb_here.prems(3) by simp
  have 1: "parent (heap t' ! n) = Some p"
    using same_shape_fields(1) [OF nb_here.prems(2,3)] nb_here.hyps(1) by simp
  have 2: "p \<noteq> top_node t'"
    using same_shape_frame(2) [OF nb_here.prems(2)] nb_here.hyps(2) by simp
  have 3: "qualifies t' p"
    using qualifies_same_shape [OF nb_here.prems(2) pl] nb_here.hyps(3) by simp
  show ?case by (rule nearest_branch.nb_here [OF 1 2 3])
next
  case (nb_skip n p b)
  have pl: "p < length (heap t)"
    using wf_parent [OF nb_skip.prems(1,3) nb_skip.hyps(1)] nb_skip.prems(3) by simp
  have 1: "parent (heap t' ! n) = Some p"
    using same_shape_fields(1) [OF nb_skip.prems(2,3)] nb_skip.hyps(1) by simp
  have 2: "p \<noteq> top_node t'"
    using same_shape_frame(2) [OF nb_skip.prems(2)] nb_skip.hyps(2) by simp
  have 3: "\<not> qualifies t' p"
    using qualifies_same_shape [OF nb_skip.prems(2) pl] nb_skip.hyps(3) by simp
  have 4: "nearest_branch t' p b" by (rule nb_skip.IH [OF nb_skip.prems(1,2) pl])
  show ?case by (rule nearest_branch.nb_skip [OF 1 2 3 4])
qed

lemma no_branch_above_same_shape:
  "no_branch_above t n \<Longrightarrow> wf_tree t \<Longrightarrow> same_shape t t' \<Longrightarrow> n < length (heap t) \<Longrightarrow>
   no_branch_above t' n"
proof (induction rule: no_branch_above.induct)
  case (nba_root n)
  have "parent (heap t' ! n) = Some (top_node t')"
    using same_shape_fields(1) [OF nba_root.prems(2,3)] same_shape_frame(2) [OF nba_root.prems(2)]
      nba_root.hyps by simp
  then show ?case by (rule no_branch_above.nba_root)
next
  case (nba_skip n p)
  have pl: "p < length (heap t)"
    using wf_parent [OF nba_skip.prems(1,3) nba_skip.hyps(1)] nba_skip.prems(3) by simp
  have 1: "parent (heap t' ! n) = Some p"
    using same_shape_fields(1) [OF nba_skip.prems(2,3)] nba_skip.hyps(1) by simp
  have 2: "p \<noteq> top_node t'"
    using same_shape_frame(2) [OF nba_skip.prems(2)] nba_skip.hyps(2) by simp
  have 3: "\<not> qualifies t' p"
    using qualifies_same_shape [OF nba_skip.prems(2) pl] nba_skip.hyps(3) by simp
  have 4: "no_branch_above t' p" by (rule nba_skip.IH [OF nba_skip.prems(1,2) pl])
  show ?case by (rule no_branch_above.nba_skip [OF 1 2 3 4])
qed

text \<open>
  One turn of the \<^verbatim>\<open>for\<close> loop on a node other than the root: the node is left as it
  is when it is no candidate or no branch is above it, and is linked to its nearest
  branch otherwise.
\<close>

lemma petrify_step:
  assumes wf: "wf_tree t" and n: "n < length (heap t)" and n0: "n \<noteq> 0"
  shows "\<exists>t1. petrify_loop t (n # ns) = petrify_loop t1 ns \<and> wf_tree t1 \<and> same_shape t t1 \<and>
           (\<forall>m < length (heap t). m \<noteq> n \<longrightarrow> toplevel (heap t1 ! m) = toplevel (heap t ! m)) \<and>
           (toplevel (heap t ! n) \<longrightarrow>
              (no_branch_above t n \<and> t1 = t) \<or>
              (\<exists>b. nearest_branch t n b \<and> t1 = link t n b)) \<and>
           (\<not> toplevel (heap t ! n) \<longrightarrow> t1 = t)"
proof (cases "toplevel (heap t ! n)")
  case False
  then show ?thesis using wf by (auto simp: same_shape_refl)
next
  case True
  obtain p where p: "parent (heap t ! n) = Some p"
    using wf n n0 unfolding wf_tree_def by blast
  from walk_up_result [OF wf n p, of n] show ?thesis
  proof
    assume a: "no_branch_above t n \<and> walk_up t n (Some p) = Some (Inr t)"
    then have "petrify_loop t (n # ns) = petrify_loop t ns" using True p by simp
    then show ?thesis using a wf True by (auto simp: same_shape_refl)
  next
    assume "\<exists>b. nearest_branch t n b \<and> walk_up t n (Some p) = Some (Inr (link t n b))"
    then obtain b where b: "nearest_branch t n b"
      and w: "walk_up t n (Some p) = Some (Inr (link t n b))" by blast
    have bl: "b < length (heap t)" using nearest_branch_valid [OF b wf n] n by simp
    have 1: "petrify_loop t (n # ns) = petrify_loop (link t n b) ns" using True p w by simp
    have 2: "wf_tree (link t n b)" by (rule link_wf [OF wf n bl n0])
    have 3: "same_shape t (link t n b)" by (rule link_same_shape [OF n bl])
    have 4: "toplevel (heap (link t n b) ! m) = toplevel (heap t ! m)"
      if "m < length (heap t)" "m \<noteq> n" for m
      using link_fields(5) [OF n bl that(1)] that(2) by simp
    show ?thesis using 1 2 3 4 b True by blast
  qed
qed

text \<open>The pass stops with AttributeError when the root is among the nodes it visits.\<close>

lemma petrify_loop_root:
  assumes "wf_tree t" and "set ns \<subseteq> {n. n < length (heap t)}" and "0 \<in> set ns"
  shows "\<exists>t'. petrify_loop t ns = Some (Inl AttributeError, t') \<and> wf_tree t' \<and> same_shape t t'"
  using assms
proof (induction ns arbitrary: t)
  case Nil
  then show ?case by simp
next
  case (Cons n ns)
  show ?case
  proof (cases "n = 0")
    case True
    have "toplevel (heap t ! 0)" "parent (heap t ! 0) = None"
      using Cons.prems(1) by (simp_all add: wf_tree_def)
    then show ?thesis using True Cons.prems(1) by (simp add: walk_up_None same_shape_refl)
  next
    case False
    have n: "n < length (heap t)" using Cons.prems(2) by simp
    from petrify_step [OF Cons.prems(1) n False, of ns]
    obtain t1 where t1: "petrify_loop t (n # ns) = petrify_loop t1 ns" "wf_tree t1" "same_shape t t1"
      by blast
    have "set ns \<subseteq> {n. n < length (heap t1)}"
      using Cons.prems(2) same_shape_frame(1) [OF t1(3)] by simp
    moreover have "0 \<in> set ns" using Cons.prems(3) False by simp
    ultimately obtain t' where "petrify_loop t1 ns = Some (Inl AttributeError, t')" "wf_tree t'"
      "same_shape t1 t'"
      using Cons.IH [OF t1(2)] by blast
    then show ?thesis using t1(1) same_shape_trans [OF t1(3)] by auto
  qed
qed

text \<open>
  The pass over nodes other than the root ends without error. It keeps the shape of the
  tree; a candidate with no branch above it keeps its flag; a candidate it visits that
  has a nearest branch loses the flag and is in the descendant set of that branch.
\<close>

lemma petrify_loop_result:
  assumes "wf_tree t" and "set ns \<subseteq> {n. n < length (heap t)}" and "0 \<notin> set ns"
  shows "\<exists>t'. petrify_loop t ns = Some (Inr (), t') \<and> wf_tree t' \<and> same_shape t t' \<and>
     (\<forall>n < length (heap t). toplevel (heap t ! n) \<and> no_branch_above t n \<longrightarrow> toplevel (heap t' ! n)) \<and>
     (\<forall>n < length (heap t). n \<notin> set ns \<longrightarrow> toplevel (heap t' ! n) = toplevel (heap t ! n)) \<and>
     (\<forall>n \<in> set ns. \<forall>b. toplevel (heap t ! n) \<and> nearest_branch t n b \<longrightarrow>
        \<not> toplevel (heap t' ! n) \<and> (\<exists>ds. descendants (heap t' ! b) = Some ds \<and> n \<in> ds))"
  using assms
proof (induction ns arbitrary: t)
  case Nil
  then show ?case by (simp add: same_shape_refl)
next
  case (Cons n ns)
  have n: "n < length (heap t)" and n0: "n \<noteq> 0" using Cons.prems(2,3) by auto
  from petrify_step [OF Cons.prems(1) n n0, of ns]
  obtain t1 where eq: "petrify_loop t (n # ns) = petrify_loop t1 ns"
    and wf1: "wf_tree t1" and sh1: "same_shape t t1"
    and fr1: "\<And>m. m < length (heap t) \<Longrightarrow> m \<noteq> n \<Longrightarrow> toplevel (heap t1 ! m) = toplevel (heap t ! m)"
    and cand: "toplevel (heap t ! n) \<Longrightarrow>
              (no_branch_above t n \<and> t1 = t) \<or> (\<exists>b. nearest_branch t n b \<and> t1 = link t n b)"
    and nocand: "\<not> toplevel (heap t ! n) \<Longrightarrow> t1 = t"
    by blast
  have len1: "length (heap t1) = length (heap t)" by (rule same_shape_frame(1) [OF sh1])
  have sub1: "set ns \<subseteq> {n. n < length (heap t1)}" using Cons.prems(2) len1 by simp
  have z1: "0 \<notin> set ns" using Cons.prems(3) by simp
  from Cons.IH [OF wf1 sub1 z1]
  obtain t' where res: "petrify_loop t1 ns = Some (Inr (), t')"
    and wf': "wf_tree t'" and sh': "same_shape t1 t'"
    and keep': "\<And>m. m < length (heap t1) \<Longrightarrow> toplevel (heap t1 ! m) \<Longrightarrow> no_branch_above t1 m \<Longrightarrow>
                  toplevel (heap t' ! m)"
    and out': "\<And>m. m < length (heap t1) \<Longrightarrow> m \<notin> set ns \<Longrightarrow> toplevel (heap t' ! m) = toplevel (heap t1 ! m)"
    and lnk': "\<And>m b. m \<in> set ns \<Longrightarrow> toplevel (heap t1 ! m) \<Longrightarrow> nearest_branch t1 m b \<Longrightarrow>
                  \<not> toplevel (heap t' ! m) \<and> (\<exists>ds. descendants (heap t' ! b) = Some ds \<and> m \<in> ds)"
    by blast
  have sh: "same_shape t t'" by (rule same_shape_trans [OF sh1 sh'])
  have keep: "toplevel (heap t' ! m)"
    if m: "m < length (heap t)" and tl: "toplevel (heap t ! m)" and nb: "no_branch_above t m" for m
  proof -
    have "toplevel (heap t1 ! m)"
    proof (cases "m = n")
      case True
      with cand tl nb nearest_branch_excludes [of t n] have "t1 = t" by blast
      then show ?thesis using tl by simp
    next
      case False
      then show ?thesis using fr1 [OF m] tl by simp
    qed
    moreover have "no_branch_above t1 m"
      by (rule no_branch_above_same_shape [OF nb Cons.prems(1) sh1 m])
    ultimately show ?thesis using keep' m len1 by simp
  qed
  have out: "toplevel (heap t' ! m) = toplevel (heap t ! m)"
    if m: "m < length (heap t)" and ni: "m \<notin> set (n # ns)" for m
    using out' [of m] fr1 [OF m] m ni len1 by simp
  have lnk: "\<not> toplevel (heap t' ! m) \<and> (\<exists>ds. descendants (heap t' ! b) = Some ds \<and> m \<in> ds)"
    if mi: "m \<in> set (n # ns)" and tl: "toplevel (heap t ! m)" and nb: "nearest_branch t m b" for m b
  proof (cases "m = n")
    case True
    from cand tl True nb nearest_branch_excludes [of t n b]
    obtain b' where b': "nearest_branch t n b'" "t1 = link t n b'" by blast
    have bb: "b' = b" using nearest_branch_unique [OF b'(1)] nb True by simp
    have bl: "b < length (heap t)" and q: "qualifies t b"
      using nearest_branch_valid [OF nb Cons.prems(1)] n True by simp_all
    obtain ds0 where ds0: "descendants (heap t ! b) = Some ds0"
      using q by (auto simp: qualifies_def)
    have 1: "\<not> toplevel (heap t1 ! n)"
      using link_fields(5) [OF n bl n] b'(2) bb by simp
    have 2: "descendants (heap t1 ! b) = Some (insert n ds0)"
      using link_fields(4) [OF n bl bl] b'(2) bb ds0 by simp
    have "\<not> toplevel (heap t' ! n)"
      using same_shape_fields(5) [OF sh', of n] 1 n len1 by auto
    moreover have "\<exists>ds. descendants (heap t' ! b) = Some ds \<and> n \<in> ds"
      using same_shape_descendants [OF sh' _ 2] bl len1 by auto
    ultimately show ?thesis using True by simp
  next
    case False
    then have mi': "m \<in> set ns" using mi by simp
    then have m: "m < length (heap t)" using Cons.prems(2) by auto
    have "toplevel (heap t1 ! m)" using fr1 [OF m False] tl by simp
    moreover have "nearest_branch t1 m b"
      by (rule nearest_branch_same_shape [OF nb Cons.prems(1) sh1 m])
    ultimately show ?thesis using lnk' [OF mi'] by simp
  qed
  show ?case
    apply (rule exI [of _ t'])
    apply (intro conjI allI impI ballI)
    subgoal using eq res by simp
    subgoal by (rule wf')
    subgoal by (rule sh)
    subgoal for m using keep [of m] by simp
    subgoal for m using out [of m] by simp
    subgoal for m b using lnk [of m b] by simp
    subgoal for m b using lnk [of m b] by simp
    done
qed

lemma priv_petrify_cases:
  assumes wf: "wf_tree t" and o: "set order \<subseteq> {n. n < length (heap t)}"
  shows "\<exists>t1. wf_tree t1 \<and> same_shape t t1 \<and>
           (if 0 \<in> set order then priv_petrify t order = Some (Inl AttributeError, t1)
            else priv_petrify t order = Some (Inr (), t1\<lparr>petrified := True\<rparr>))"
proof (cases "0 \<in> set order")
  case True
  from petrify_loop_root [OF wf o True] show ?thesis
    using True by (auto simp: priv_petrify_def)
next
  case False
  from petrify_loop_result [OF wf o False] show ?thesis
    using False by (auto simp: priv_petrify_def)
qed

lemma wf_tree_petrified: "wf_tree (t\<lparr>petrified := b\<rparr>) = wf_tree t"
  by (simp add: wf_tree_def)

lemma priv_petrify_wf:
  assumes wf: "wf_tree t" and o: "set order = nodes_with_data t"
    and p: "priv_petrify t order = Some (r, t')"
  shows "wf_tree t'"
proof -
  have "set order \<subseteq> {n. n < length (heap t)}" using wf o by (auto simp: wf_tree_def)
  from priv_petrify_cases [OF wf this] p show ?thesis
    by (auto simp: wf_tree_petrified split: if_splits)
qed

lemma iter_wf:
  assumes wf: "wf_tree t" and o: "set order = nodes_with_data t"
    and p: "iter t order = Some (r, t')"
  shows "wf_tree t'"
proof (cases "petrified t")
  case True
  with p wf show ?thesis by (simp add: iter_def)
next
  case False
  then obtain r1 where "priv_petrify t order = Some (r1, t')"
    using p by (auto simp: iter_def split: option.splits sum.splits prod.splits)
  then show ?thesis by (rule priv_petrify_wf [OF wf o])
qed

lemma reachable_wf: "reachable t \<Longrightarrow> wf_tree t"
proof (induction rule: reachable.induct)
  case r_init
  show ?case by (rule wf_tree_init)
next
  case (r_add t d is_leaf)
  then show ?case by (simp add: add_node_wf)
next
  case (r_iter t order r t1)
  then show ?case by (simp add: iter_wf)
next
  case (r_petrify t order u t1)
  then show ?case by (simp add: priv_petrify_wf)
qed

section \<open>The example tree\<close>

lemma reachable_run_adds: "reachable t \<Longrightarrow> reachable (run_adds t cs)"
proof (induction cs arbitrary: t)
  case Nil
  then show ?case by simp
next
  case (Cons c cs)
  obtain d l where c: "c = (d, l)" by (cases c)
  have "reachable (snd (add_node t d l))" using Cons.prems by (rule r_add)
  then show ?case using Cons.IH c by simp
qed

lemma tree_family_value:
  "tree_family =
    \<lparr>heap = [
       \<lparr>parent = None, children = [''dc=com'' \<mapsto> 1], descendants = None, data = None,
        toplevel = True\<rparr>,
       \<lparr>parent = Some 0, children = [''dc=example'' \<mapsto> 2], descendants = Some {},
        data = Some entry_com, toplevel = True\<rparr>,
       \<lparr>parent = Some 1, children = [''ou=people'' \<mapsto> 3], descendants = None,
        data = Some entry_example, toplevel = True\<rparr>,
       \<lparr>parent = Some 2, children = [''cn=alice'' \<mapsto> 4], descendants = None, data = None,
        toplevel = True\<rparr>,
       \<lparr>parent = Some 3, children = Map.empty, descendants = None, data = Some entry_alice,
        toplevel = True\<rparr>],
     top_node = 0, nodes_with_data = {1, 2, 4}, branches = {1}, petrified = False\<rparr>"
  by (simp add: tree_family_def add_node_def priv_add_node_unfold normal_path_def select_or_create_def
      LdapTree_init_def LdapNode_init_def holds_data_def entry_alice_def entry_example_def entry_com_def
      insert_commute eval_nat_numeral)

lemma tree_family_reachable: "reachable tree_family"
  unfolding tree_family_def by (rule reachable_run_adds [OF r_init])

lemma tree_family_petrify:
  "priv_petrify tree_family [4, 2, 1] =
     Some (Inr (), snd (the (priv_petrify tree_family [4, 2, 1])))"
  by (simp add: tree_family_value priv_petrify_def walk_up.simps holds_data_def
      entry_alice_def entry_example_def entry_com_def)

lemma tree_family_nearest: "nearest_branch tree_family 4 1"
proof -
  have q1: "qualifies tree_family 1" "\<not> qualifies tree_family 2" "\<not> qualifies tree_family 3"
    by (simp_all add: tree_family_value qualifies_def holds_data_def entry_com_def)
  have n2: "nearest_branch tree_family 2 1"
    by (rule nb_here [OF _ _ q1(1)]) (simp_all add: tree_family_value)
  have n3: "nearest_branch tree_family 3 1"
    by (rule nb_skip [OF _ _ q1(2) n2]) (simp_all add: tree_family_value)
  show ?thesis
    by (rule nb_skip [OF _ _ q1(3) n3]) (simp_all add: tree_family_value)
qed

lemma tree_com_value:
  "tree_com =
    \<lparr>heap = [
       \<lparr>parent = None, children = [''dc=com'' \<mapsto> 1], descendants = None, data = None,
        toplevel = True\<rparr>,
       \<lparr>parent = Some 0, children = Map.empty, descendants = Some {}, data = Some entry_com,
        toplevel = True\<rparr>],
     top_node = 0, nodes_with_data = {1}, branches = {1}, petrified = False\<rparr>"
  by (simp add: tree_com_def add_node_def priv_add_node_unfold normal_path_def select_or_create_def
      LdapTree_init_def LdapNode_init_def holds_data_def entry_com_def)

lemma tree_falsy_value:
  "tree_falsy =
    \<lparr>heap = [
       \<lparr>parent = None, children = [''dc=com'' \<mapsto> 1], descendants = None, data = None,
        toplevel = True\<rparr>,
       \<lparr>parent = Some 0, children = Map.empty, descendants = Some {}, data = Some entry_falsy,
        toplevel = True\<rparr>],
     top_node = 0, nodes_with_data = {1}, branches = {1}, petrified = False\<rparr>"
  by (simp add: tree_falsy_def add_node_def priv_add_node_unfold normal_path_def select_or_create_def
      LdapTree_init_def LdapNode_init_def holds_data_def entry_falsy_def)


lemma tree_com_reachable: "reachable tree_com"
  unfolding tree_com_def by (rule r_add [OF r_init])


lemma tree_root_reachable: "reachable tree_root"
  unfolding tree_root_def by (rule r_add [OF r_init])

section \<open>The claims\<close>

text \<open>
  C1. After a freeze pass that returned, take a node of \<^verbatim>\<open>__nodes_with_data\<close> whose flag
  was set before the pass. Going up from it, either a branch that holds data is met before
  the root or the root is met first. In the first case the nearest such ancestor has the
  node in its descendant set and the flag of the node is cleared; in the second the node
  keeps its flag. Ancestors without data, or with data but without a descendant set, are
  passed over (this is how \<open>nearest_branch\<close> and \<open>no_branch_above\<close> go up).
\<close>

theorem petrify_links_nearest_branch:
  assumes "reachable t" and "set order = nodes_with_data t"
    and "priv_petrify t order = Some (Inr (), t')"
    and "n \<in> nodes_with_data t" and "toplevel (heap t ! n)"
  shows "(no_branch_above t n \<or> (\<exists>b. nearest_branch t n b)) \<and>
         (no_branch_above t n \<longrightarrow> toplevel (heap t' ! n)) \<and>
         (\<forall>b. nearest_branch t n b \<longrightarrow>
            \<not> toplevel (heap t' ! n) \<and> (\<exists>ds. descendants (heap t' ! b) = Some ds \<and> n \<in> ds))"
proof -
  have wf: "wf_tree t" by (rule reachable_wf [OF assms(1)])
  have o: "set order \<subseteq> {n. n < length (heap t)}" using wf assms(2) by (auto simp: wf_tree_def)
  have z: "0 \<notin> set order"
    using priv_petrify_cases [OF wf o] assms(3) by (auto split: if_splits)
  from petrify_loop_result [OF wf o z]
  obtain t1 where l: "petrify_loop t order = Some (Inr (), t1)"
    and keep: "\<And>m. m < length (heap t) \<Longrightarrow> toplevel (heap t ! m) \<Longrightarrow> no_branch_above t m \<Longrightarrow>
                  toplevel (heap t1 ! m)"
    and lnk: "\<And>m b. m \<in> set order \<Longrightarrow> toplevel (heap t ! m) \<Longrightarrow> nearest_branch t m b \<Longrightarrow>
                  \<not> toplevel (heap t1 ! m) \<and> (\<exists>ds. descendants (heap t1 ! b) = Some ds \<and> m \<in> ds)"
    by blast
  have h: "heap t' = heap t1" using assms(3) l by (auto simp: priv_petrify_def)
  have ni: "n \<in> set order" using assms(2,4) by simp
  then have n: "n < length (heap t)" using o by auto
  have n0: "n \<noteq> 0" using ni z by (cases "n = 0") auto
  obtain p where p: "parent (heap t ! n) = Some p"
    using wf n n0 unfolding wf_tree_def by blast
  have 1: "no_branch_above t n \<or> (\<exists>b. nearest_branch t n b)"
    using walk_up_result [OF wf n p, of n] by blast
  have 2: "no_branch_above t n \<longrightarrow> toplevel (heap t' ! n)"
    using keep [OF n assms(5)] h by simp
  have 3: "\<forall>b. nearest_branch t n b \<longrightarrow>
            \<not> toplevel (heap t' ! n) \<and> (\<exists>ds. descendants (heap t' ! b) = Some ds \<and> n \<in> ds)"
    using lnk [OF ni assms(5)] h by simp
  show ?thesis using 1 2 3 by blast
qed

theorem petrify_links_nearest_branch_witness:
  "\<exists>t'. priv_petrify tree_family [4, 2, 1] = Some (Inr (), t') \<and>
        nearest_branch tree_family 4 1 \<and> \<not> qualifies tree_family 3 \<and> \<not> qualifies tree_family 2 \<and>
        \<not> toplevel (heap t' ! 4) \<and> (\<exists>ds. descendants (heap t' ! 1) = Some ds \<and> 4 \<in> ds)"
proof -
  have o: "set [4, 2, 1] = nodes_with_data tree_family" by (auto simp: tree_family_value)
  have m: "4 \<in> nodes_with_data tree_family" by (simp add: tree_family_value)
  have f: "toplevel (heap tree_family ! 4)" by (simp add: tree_family_value)
  have q: "\<not> qualifies tree_family 3" "\<not> qualifies tree_family 2"
    by (simp_all add: tree_family_value qualifies_def holds_data_def)
  show ?thesis
    using petrify_links_nearest_branch [OF tree_family_reachable o tree_family_petrify m f]
      tree_family_nearest tree_family_petrify q
    by blast
qed

text \<open>
  C2. The claim: a second \<^verbatim>\<open>add_node\<close> on a path that holds data fails with
  NodeNotEmptyError, which carries the path. In the code, \<^verbatim>\<open>NodeNotEmptyError(path)\<close>
  receives the iterator that the descent has consumed, \<^verbatim>\<open>reversed\<close> raises on it, and
  the call fails with TypeError: adding \<^verbatim>\<open>dc=com\<close> twice gives TypeError, and no call
  of \<^verbatim>\<open>add_node\<close> ever gives NodeNotEmptyError.
\<close>

theorem second_insert_raises_TypeError:
  "fst (add_node tree_com entry_com False) = Inl TypeError \<and>
   fst (add_node tree_com entry_com True) = Inl TypeError \<and>
   (\<forall>t d is_leaf s. fst (add_node t d is_leaf) \<noteq> Inl (NodeNotEmptyError s))"
proof -
  have "fst (add_node tree_com entry_com l) = Inl TypeError" for l
    by (simp add: tree_com_value add_node_def priv_add_node_def priv_dn_to_path_def
        NodeNotEmptyError_init_def select_or_create_def holds_data_def entry_com_def)
  moreover have "fst (add_node t d is_leaf) \<noteq> Inl (NodeNotEmptyError s)" for t d is_leaf s
    by (simp add: add_node_def priv_add_node_unfold split: prod.splits sum.splits)
  ultimately show ?thesis by blast
qed

section \<open>After the freeze\<close>

lemma add_node_petrified: "petrified t \<Longrightarrow> add_node t d is_leaf = (Inl TreePetrifiedError, t)"
  by (simp add: add_node_def priv_add_node_def)

lemma iter_petrified: "petrified t \<Longrightarrow> iter t order = Some (Inr (branches t), t)"
  by (simp add: iter_def)

lemma priv_petrify_sets_flag:
  "priv_petrify t order = Some (Inr u, t1) \<Longrightarrow> petrified t1"
  by (auto simp: priv_petrify_def split: option.splits sum.splits prod.splits)

lemma iter_sets_flag:
  "iter t order = Some (Inr bs, t1) \<Longrightarrow> petrified t1 \<and> bs = branches t1"
  by (auto simp: iter_def priv_petrify_def split: option.splits sum.splits prod.splits if_splits)

lemma iter_first:
  "\<not> petrified t \<Longrightarrow> priv_petrify t order = Some (Inr (), t1) \<Longrightarrow>
   iter t order = Some (Inr (branches t1), t1)"
  by (simp add: iter_def)

lemma run_calls_petrified:
  "petrified t \<Longrightarrow>
   run_calls t cs =
     Some (map (\<lambda>c. case c of AddNode d is_leaf \<Rightarrow> AddResult (Inl TreePetrifiedError)
                               | Iterate order \<Rightarrow> IterResult (Inr (branches t))) cs, t)"
proof (induction cs)
  case Nil
  show ?case by simp
next
  case (Cons c cs)
  then show ?case by (cases c) (simp_all add: add_node_petrified iter_petrified)
qed

text \<open>
  C4. Once an iteration (or the freeze pass itself) has returned, every later call of
  \<^verbatim>\<open>add_node\<close>, whatever calls come in between, fails with TreePetrifiedError, and
  the tree after any such sequence of calls is the tree the freeze left: no node is
  created, no payload assigned, no registry changed.
\<close>

theorem add_after_freeze_fails:
  assumes "iter t order = Some (Inr bs, t1) \<or> priv_petrify t order = Some (Inr (), t1)"
  shows "add_node t1 d is_leaf = (Inl TreePetrifiedError, t1) \<and>
         (\<exists>rs. run_calls t1 cs = Some (rs, t1) \<and> length rs = length cs \<and>
            (\<forall>i < length cs. \<forall>d' l'. cs ! i = AddNode d' l' \<longrightarrow>
               rs ! i = AddResult (Inl TreePetrifiedError)))"
proof -
  have p: "petrified t1" using assms iter_sets_flag priv_petrify_sets_flag by blast
  show ?thesis
    using run_calls_petrified [OF p, of cs] add_node_petrified [OF p] by auto
qed

theorem add_after_freeze_fails_witness:
  "\<exists>bs t1. iter tree_family [4, 2, 1] = Some (Inr bs, t1) \<and>
     add_node t1 entry_root True = (Inl TreePetrifiedError, t1) \<and>
     (\<exists>rs. run_calls t1 [AddNode entry_root True, Iterate [], AddNode entry_com False] = Some (rs, t1) \<and>
        rs ! 0 = AddResult (Inl TreePetrifiedError) \<and> rs ! 2 = AddResult (Inl TreePetrifiedError))"
proof -
  define t1 where "t1 = snd (the (priv_petrify tree_family [4, 2, 1]))"
  let ?cs = "[AddNode entry_root True, Iterate [], AddNode entry_com False]"
  have np: "\<not> petrified tree_family" by (simp add: tree_family_value)
  have e: "iter tree_family [4, 2, 1] = Some (Inr (branches t1), t1)"
    unfolding t1_def by (rule iter_first [OF np tree_family_petrify])
  from add_after_freeze_fails [OF disjI1 [OF e], of entry_root True ?cs]
  obtain rs where a: "add_node t1 entry_root True = (Inl TreePetrifiedError, t1)"
    and r: "run_calls t1 ?cs = Some (rs, t1)"
    and al: "\<forall>i < length ?cs. \<forall>d' l'. ?cs ! i = AddNode d' l' \<longrightarrow>
               rs ! i = AddResult (Inl TreePetrifiedError)"
    by blast
  have r0: "rs ! 0 = AddResult (Inl TreePetrifiedError)"
    using al [rule_format, of 0 entry_root True] by simp
  have r2: "rs ! 2 = AddResult (Inl TreePetrifiedError)"
    using al [rule_format, of 2 entry_com False] by simp
  show ?thesis using e a r r0 r2 by blast
qed

lemma qualifies_heap: "heap t' = heap t \<Longrightarrow> qualifies t' p = qualifies t p"
  by (simp add: qualifies_def)

lemma no_branch_above_heap:
  "no_branch_above t n \<Longrightarrow> heap t' = heap t \<Longrightarrow> top_node t' = top_node t \<Longrightarrow>
   no_branch_above t' n"
proof (induction rule: no_branch_above.induct)
  case (nba_root n)
  then have "parent (heap t' ! n) = Some (top_node t')" by simp
  then show ?case by (rule no_branch_above.nba_root)
next
  case (nba_skip n p)
  have 1: "parent (heap t' ! n) = Some p" using nba_skip by simp
  have 2: "p \<noteq> top_node t'" using nba_skip by simp
  have 3: "\<not> qualifies t' p" using nba_skip qualifies_heap [of t' t p] by simp
  have 4: "no_branch_above t' p" using nba_skip by simp
  show ?case by (rule no_branch_above.nba_skip [OF 1 2 3 4])
qed

text \<open>A pass over nodes that are no candidates, or have no branch above, changes nothing.\<close>

lemma petrify_loop_stable:
  assumes "wf_tree t"
    and "\<forall>n \<in> set ns. n < length (heap t) \<and> n \<noteq> 0 \<and> (toplevel (heap t ! n) \<longrightarrow> no_branch_above t n)"
  shows "petrify_loop t ns = Some (Inr (), t)"
  using assms
proof (induction ns)
  case Nil
  show ?case by simp
next
  case (Cons n ns)
  have n: "n < length (heap t)" "n \<noteq> 0" and nb: "toplevel (heap t ! n) \<Longrightarrow> no_branch_above t n"
    using Cons.prems(2) by simp_all
  from petrify_step [OF Cons.prems(1) n, of ns]
  obtain t1 where eq: "petrify_loop t (n # ns) = petrify_loop t1 ns"
    and cand: "toplevel (heap t ! n) \<Longrightarrow>
              (no_branch_above t n \<and> t1 = t) \<or> (\<exists>b. nearest_branch t n b \<and> t1 = link t n b)"
    and nocand: "\<not> toplevel (heap t ! n) \<Longrightarrow> t1 = t"
    by blast
  have "t1 = t"
  proof (cases "toplevel (heap t ! n)")
    case True
    with cand nb nearest_branch_excludes [of t n] show ?thesis by blast
  next
    case False
    then show ?thesis by (rule nocand)
  qed
  then show ?case using eq Cons.IH Cons.prems by simp
qed

text \<open>After a pass that returned, a second pass changes nothing.\<close>

lemma priv_petrify_again:
  assumes r: "reachable t" and o: "set order = nodes_with_data t"
    and o': "set order' = nodes_with_data t"
    and p: "priv_petrify t order = Some (Inr (), t1)"
  shows "priv_petrify t1 order' = Some (Inr (), t1)"
proof -
  have wf: "wf_tree t" by (rule reachable_wf [OF r])
  have sub: "set order \<subseteq> {n. n < length (heap t)}" using wf o by (auto simp: wf_tree_def)
  have z: "0 \<notin> set order"
    using priv_petrify_cases [OF wf sub] p by (auto split: if_splits)
  from petrify_loop_result [OF wf sub z]
  obtain t0 where l: "petrify_loop t order = Some (Inr (), t0)"
    and wf0: "wf_tree t0" and sh: "same_shape t t0"
    and lnk: "\<And>m b. m \<in> set order \<Longrightarrow> toplevel (heap t ! m) \<Longrightarrow> nearest_branch t m b \<Longrightarrow>
                  \<not> toplevel (heap t0 ! m)"
    by blast
  have t1: "t1 = t0\<lparr>petrified := True\<rparr>" using p l by (simp add: priv_petrify_def)
  have wf1: "wf_tree t1" using wf0 t1 by (simp add: wf_tree_petrified)
  have st: "n < length (heap t1) \<and> n \<noteq> 0 \<and> (toplevel (heap t1 ! n) \<longrightarrow> no_branch_above t1 n)"
    if ni: "n \<in> set order'" for n
  proof -
    have no: "n \<in> set order" using ni o o' by simp
    then have n: "n < length (heap t)" using sub by auto
    have n0: "n \<noteq> 0" using no z by (cases "n = 0") auto
    obtain q where q: "parent (heap t ! n) = Some q"
      using wf n n0 unfolding wf_tree_def by blast
    have "no_branch_above t1 n" if tl1: "toplevel (heap t1 ! n)"
    proof -
      have tl0: "toplevel (heap t0 ! n)" using tl1 t1 by simp
      then have tl: "toplevel (heap t ! n)" by (rule same_shape_fields(5) [OF sh n])
      have "\<not> nearest_branch t n b" for b using lnk [OF no tl, of b] tl0 by blast
      then have "no_branch_above t n" using walk_up_result [OF wf n q, of n] by blast
      then have "no_branch_above t0 n" by (rule no_branch_above_same_shape [OF _ wf sh n])
      then show ?thesis by (rule no_branch_above_heap) (simp_all add: t1)
    qed
    then show ?thesis using n n0 same_shape_frame(1) [OF sh] t1 by simp
  qed
  have "petrify_loop t1 order' = Some (Inr (), t1)"
    by (rule petrify_loop_stable [OF wf1]) (use st in blast)
  then show ?thesis using t1 by (simp add: priv_petrify_def)
qed

text \<open>
  C5. After the first iteration of a tree has returned the branch set, any further
  iteration returns the same set and leaves the tree as it is, without running the
  pass again; and running the freeze pass itself again leaves the tree as it is too. The
  tree being the same, the descendant sets and the flags of all nodes are the same.
\<close>

theorem freeze_idempotent:
  assumes "reachable t" and "\<not> petrified t"
    and "set order = nodes_with_data t" and "set order' = nodes_with_data t"
    and "iter t order = Some (Inr bs, t1)"
  shows "iter t1 order' = Some (Inr bs, t1) \<and>
         priv_petrify t1 order' = Some (Inr (), t1) \<and>
         run_calls t1 (map Iterate orders) = Some (map (\<lambda>x. IterResult (Inr bs)) orders, t1)"
proof -
  have f: "petrified t1" "bs = branches t1" using iter_sets_flag [OF assms(5)] by simp_all
  have p: "priv_petrify t order = Some (Inr (), t1)"
    using assms(2,5) by (auto simp: iter_def split: option.splits sum.splits prod.splits)
  have 1: "iter t1 order' = Some (Inr bs, t1)" using f by (simp add: iter_petrified)
  have 2: "priv_petrify t1 order' = Some (Inr (), t1)"
    by (rule priv_petrify_again [OF assms(1,3,4) p])
  have 3: "run_calls t1 (map Iterate orders) = Some (map (\<lambda>x. IterResult (Inr bs)) orders, t1)"
    using run_calls_petrified [OF f(1), of "map Iterate orders"] f(2) by (simp add: comp_def)
  show ?thesis using 1 2 3 by simp
qed

theorem freeze_idempotent_witness:
  "\<exists>bs t1. iter tree_family [4, 2, 1] = Some (Inr bs, t1) \<and> bs = {1} \<and>
     iter t1 [1, 2, 4] = Some (Inr bs, t1) \<and> priv_petrify t1 [1, 2, 4] = Some (Inr (), t1) \<and>
     run_calls t1 [Iterate [1, 2, 4], Iterate [], Iterate [2]] =
       Some ([IterResult (Inr bs), IterResult (Inr bs), IterResult (Inr bs)], t1)"
proof -
  define t1 where "t1 = snd (the (priv_petrify tree_family [4, 2, 1]))"
  have np: "\<not> petrified tree_family" by (simp add: tree_family_value)
  have e: "iter tree_family [4, 2, 1] = Some (Inr (branches t1), t1)"
    unfolding t1_def by (rule iter_first [OF np tree_family_petrify])
  have o: "set [4, 2, 1] = nodes_with_data tree_family" by (auto simp: tree_family_value)
  have o': "set [1, 2, 4] = nodes_with_data tree_family" by (auto simp: tree_family_value)
  have b: "branches t1 = {1}"
    unfolding t1_def
    by (simp add: tree_family_value priv_petrify_def walk_up.simps holds_data_def
        entry_alice_def entry_example_def entry_com_def)
  have e1: "iter tree_family [4, 2, 1] = Some (Inr {1}, t1)" using e b by simp
  note f = freeze_idempotent [OF tree_family_reachable np o o' e1, of "[[1, 2, 4], [], [2]]",
      unfolded list.map]
  show ?thesis using e1 f by blast
qed

section \<open>Insertion\<close>


lemma resolve_children_cong:
  "(\<And>m. children (heap t' ! m) = children (heap t ! m)) \<Longrightarrow>
   resolve t' node names = resolve t node names"
  by (induction names arbitrary: node) (simp_all split: option.splits)

lemma path_nodes_children_cong:
  "(\<And>m. children (heap t' ! m) = children (heap t ! m)) \<Longrightarrow>
   path_nodes t' node names = path_nodes t node names"
  by (induction names arbitrary: node) (simp_all split: option.splits)

lemma children_list_update:
  "children nd = children (h ! i) \<Longrightarrow> children (h[i := nd] ! m) = children (h ! m)"
  by (cases "i < length h") (simp_all add: nth_list_update list_update_beyond)

text \<open>What a call of \<^verbatim>\<open>add_node\<close> that returns has done.\<close>

lemma add_node_success:
  assumes wf: "wf_tree t" and s: "fst (add_node t d is_leaf) = Inr r"
  obtains t1 n tlev where "\<not> petrified t"
    and "descend t (top_node t) True (normal_path (dn d)) = (t1, n, tlev)"
    and "\<not> holds_data (heap t1 ! n)" and "r = None"
    and "priv_add_node t d =
           (Inr n, t1\<lparr>heap := (heap t1)[n := (heap t1 ! n)\<lparr>data := Some d, toplevel := tlev\<rparr>],
                     nodes_with_data := insert n (nodes_with_data t1)\<rparr>)"
    and "heap (snd (add_node t d is_leaf)) =
           (if is_leaf then (heap t1)[n := (heap t1 ! n)\<lparr>data := Some d, toplevel := tlev\<rparr>]
            else (heap t1)[n := (heap t1 ! n)\<lparr>data := Some d, toplevel := tlev, descendants := Some {}\<rparr>])"
    and "branches (snd (add_node t d is_leaf)) = (if is_leaf then branches t1 else insert n (branches t1))"
    and "nodes_with_data (snd (add_node t d is_leaf)) = insert n (nodes_with_data t1)"
    and "top_node (snd (add_node t d is_leaf)) = top_node t1"
    and "petrified (snd (add_node t d is_leaf)) = petrified t1"
proof -
  obtain t1 n tlev where d: "descend t (top_node t) True (normal_path (dn d)) = (t1, n, tlev)"
    by (cases "descend t (top_node t) True (normal_path (dn d))")
  have np: "\<not> petrified t" using s by (auto simp: add_node_def priv_add_node_unfold)
  have nh: "\<not> holds_data (heap t1 ! n)"
    using s np d by (auto simp: add_node_def priv_add_node_unfold)
  have r: "r = None"
    using s by (auto simp: add_node_def split: prod.splits sum.splits if_splits)
  have p: "priv_add_node t d =
           (Inr n, t1\<lparr>heap := (heap t1)[n := (heap t1 ! n)\<lparr>data := Some d, toplevel := tlev\<rparr>],
                     nodes_with_data := insert n (nodes_with_data t1)\<rparr>)"
    using np d nh by (simp add: priv_add_node_unfold)
  have top: "top_node t < length (heap t)" using wf by (simp add: wf_tree_def)
  have nl: "n < length (heap t1)" using descend_facts [OF wf top d] by simp
  show ?thesis
    by (rule that [OF np d nh r p]) (use nl in \<open>simp_all add: add_node_def p\<close>)
qed

text \<open>
  C7. When \<^verbatim>\<open>add_node\<close> fails on a tree that is not frozen, the destination held data
  before the call; the tree after the call is the tree the descent left, with every node
  the descent created (nothing is rolled back); the payload of the destination, the set
  of nodes with data and the set of branches are as before. In fact the descent of such
  a call creates no node, and the tree is the one before the call.
\<close>

theorem failed_insert_keeps_data:
  assumes "reachable t" and "\<not> petrified t" and "fst (add_node t d is_leaf) = Inl e"
  shows "\<exists>node tlev.
           descend t (top_node t) True (normal_path (dn d)) = (snd (add_node t d is_leaf), node, tlev) \<and>
           holds_data (heap t ! node) \<and>
           data (heap (snd (add_node t d is_leaf)) ! node) = data (heap t ! node) \<and>
           nodes_with_data (snd (add_node t d is_leaf)) = nodes_with_data t \<and>
           branches (snd (add_node t d is_leaf)) = branches t \<and>
           snd (add_node t d is_leaf) = t"
proof -
  have wf: "wf_tree t" by (rule reachable_wf [OF assms(1)])
  have top: "top_node t < length (heap t)" using wf by (simp add: wf_tree_def)
  obtain t1 n tlev where d: "descend t (top_node t) True (normal_path (dn d)) = (t1, n, tlev)"
    by (cases "descend t (top_node t) True (normal_path (dn d))")
  have h: "holds_data (heap t1 ! n)"
    using assms(2,3) d by (auto simp: add_node_def priv_add_node_unfold split: if_splits)
  then have s: "snd (add_node t d is_leaf) = t1"
    using assms(2) d by (simp add: add_node_def priv_add_node_unfold)
  have "data (heap t1 ! n) \<noteq> None" using h by (auto simp: holds_data_def split: option.splits)
  then have e: "t1 = t" by (rule descend_to_data_unchanged [OF wf top d])
  show ?thesis using d h s e by simp
qed

theorem failed_insert_keeps_data_witness:
  "fst (add_node tree_com entry_com True) = Inl TypeError \<and>
   snd (add_node tree_com entry_com True) = tree_com \<and>
   data (heap (snd (add_node tree_com entry_com True)) ! 1) = Some entry_com \<and>
   nodes_with_data (snd (add_node tree_com entry_com True)) = {1} \<and>
   branches (snd (add_node tree_com entry_com True)) = {1}"
proof -
  have np: "\<not> petrified tree_com" by (simp add: tree_com_value)
  have f: "fst (add_node tree_com entry_com True) = Inl TypeError"
    by (simp add: tree_com_value add_node_def priv_add_node_unfold normal_path_def
        select_or_create_def holds_data_def entry_com_def)
  from failed_insert_keeps_data [OF tree_com_reachable np f]
  have "snd (add_node tree_com entry_com True) = tree_com" by blast
  then show ?thesis using f by (simp add: tree_com_value)
qed

text \<open>
  The tree after a call of \<^verbatim>\<open>add_node\<close> that returned: the path of the entry resolves
  to the node that \<^verbatim>\<open>_add_node\<close> returned, and that node carries the entry.
\<close>

lemma add_node_success_dest:
  assumes wf: "wf_tree t" and s: "fst (add_node t d is_leaf) = Inr r"
  shows "\<exists>n. fst (priv_add_node t d) = Inr n \<and> n < length (heap (snd (add_node t d is_leaf))) \<and>
           resolve (snd (add_node t d is_leaf)) (top_node t) (normal_path (dn d)) = Some n \<and>
           data (heap (snd (add_node t d is_leaf)) ! n) = Some d"
proof -
  from add_node_success [OF wf s]
  obtain t1 n tlev where d: "descend t (top_node t) True (normal_path (dn d)) = (t1, n, tlev)"
    and p: "priv_add_node t d =
           (Inr n, t1\<lparr>heap := (heap t1)[n := (heap t1 ! n)\<lparr>data := Some d, toplevel := tlev\<rparr>],
                     nodes_with_data := insert n (nodes_with_data t1)\<rparr>)"
    and h: "heap (snd (add_node t d is_leaf)) =
           (if is_leaf then (heap t1)[n := (heap t1 ! n)\<lparr>data := Some d, toplevel := tlev\<rparr>]
            else (heap t1)[n := (heap t1 ! n)\<lparr>data := Some d, toplevel := tlev, descendants := Some {}\<rparr>])"
    by metis
  have top: "top_node t < length (heap t)" using wf by (simp add: wf_tree_def)
  from descend_facts [OF wf top d]
  have nl: "n < length (heap t1)" and res: "resolve t1 (top_node t) (normal_path (dn d)) = Some n"
    by simp_all
  have ch: "children (heap (snd (add_node t d is_leaf)) ! m) = children (heap t1 ! m)" for m
    unfolding h by (simp add: children_list_update)
  have 1: "resolve (snd (add_node t d is_leaf)) (top_node t) (normal_path (dn d)) = Some n"
    using resolve_children_cong [of "snd (add_node t d is_leaf)" t1, OF ch] res by simp
  have 2: "data (heap (snd (add_node t d is_leaf)) ! n) = Some d"
    unfolding h using nl by simp
  have 3: "n < length (heap (snd (add_node t d is_leaf)))" unfolding h using nl by simp
  show ?thesis using p 1 2 3 by simp
qed

text \<open>
  C9, as stated: \<^verbatim>\<open>add_node\<close> returns the destination node. It does not:
  \<^verbatim>\<open>add_node\<close> has no return statement. Adding \<^verbatim>\<open>dc=com\<close> to the empty tree
  returns None, while the destination is node 1.
\<close>

theorem add_node_returns_None:
  "fst (add_node LdapTree_init entry_com False) = Inr None \<and>
   resolve (snd (add_node LdapTree_init entry_com False)) 0 (normal_path (dn entry_com)) = Some 1 \<and>
   fst (add_node LdapTree_init entry_com False) \<noteq> Inr (Some 1)"
  by (simp add: add_node_def priv_add_node_unfold normal_path_def select_or_create_def
      LdapTree_init_def LdapNode_init_def holds_data_def entry_com_def)

text \<open>
  C9, amended: on every call of \<^verbatim>\<open>add_node\<close> that returns, the inner
  \<^verbatim>\<open>_add_node\<close> has returned the destination node, the node at the end of the normalised
  path, which now carries the entry; \<^verbatim>\<open>add_node\<close> itself returns None.
\<close>

theorem priv_add_node_returns_destination:
  assumes "reachable t" and "fst (add_node t d is_leaf) = Inr r"
  shows "r = None \<and>
         (\<exists>n. fst (priv_add_node t d) = Inr n \<and>
              resolve (snd (add_node t d is_leaf)) (top_node t) (normal_path (dn d)) = Some n \<and>
              data (heap (snd (add_node t d is_leaf)) ! n) = Some d)"
proof -
  have wf: "wf_tree t" by (rule reachable_wf [OF assms(1)])
  have "r = None" using add_node_success [OF wf assms(2)] by metis
  then show ?thesis using add_node_success_dest [OF wf assms(2)] by blast
qed

theorem priv_add_node_returns_destination_witness:
  "fst (add_node LdapTree_init entry_com False) = Inr None \<and>
   fst (priv_add_node LdapTree_init entry_com) = Inr 1 \<and>
   resolve (snd (add_node LdapTree_init entry_com False)) (top_node LdapTree_init)
     (normal_path (dn entry_com)) = Some 1 \<and>
   data (heap (snd (add_node LdapTree_init entry_com False)) ! 1) = Some entry_com"
proof -
  have s: "fst (add_node LdapTree_init entry_com False) = Inr None"
    by (simp add: add_node_def priv_add_node_unfold normal_path_def select_or_create_def
        LdapTree_init_def LdapNode_init_def holds_data_def entry_com_def)
  have p: "fst (priv_add_node LdapTree_init entry_com) = Inr 1"
    by (simp add: priv_add_node_unfold normal_path_def select_or_create_def
        LdapTree_init_def LdapNode_init_def holds_data_def entry_com_def)
  show ?thesis using priv_add_node_returns_destination [OF r_init s] s p by auto
qed



section \<open>The freeze pass and the root\<close>

text \<open>
  On a reachable tree the freeze pass always ends (no walk goes on for ever). It raises
  AttributeError exactly when the root is among the nodes with data, which is the case
  after an entry with the empty DN was added; otherwise it returns.
\<close>

lemma freeze_outcome:
  assumes "reachable t" and "set order = nodes_with_data t"
  shows "map_option fst (priv_petrify t order) =
           Some (if top_node t \<in> nodes_with_data t then Inl AttributeError else Inr ())"
proof -
  have wf: "wf_tree t" by (rule reachable_wf [OF assms(1)])
  have o: "set order \<subseteq> {n. n < length (heap t)}" using wf assms(2) by (auto simp: wf_tree_def)
  have "top_node t = 0" using wf by (simp add: wf_tree_def)
  then show ?thesis using priv_petrify_cases [OF wf o] assms(2) by (auto split: if_splits)
qed


section \<open>What one insertion does to the nodes already there\<close>

lemma extends_frame:
  assumes "extends t t'"
  shows "length (heap t) \<le> length (heap t')" and "top_node t' = top_node t"
    and "nodes_with_data t' = nodes_with_data t" and "branches t' = branches t"
    and "petrified t' = petrified t"
  using assms unfolding extends_def by blast+

lemma extends_descendants:
  "extends t t' \<Longrightarrow> n < length (heap t) \<Longrightarrow> descendants (heap t' ! n) = descendants (heap t ! n)"
  by (simp add: extends_def)

lemma extends_new:
  "extends t t' \<Longrightarrow> length (heap t) \<le> n \<Longrightarrow> n < length (heap t') \<Longrightarrow>
   data (heap t' ! n) = None \<and> descendants (heap t' ! n) = None"
  by (simp add: extends_def)

text \<open>The two ways a call of \<^verbatim>\<open>add_node\<close> ends, with the tree the descent left.\<close>

lemma add_node_effect:
  assumes wf: "wf_tree t"
  obtains (fail) e where "fst (add_node t d is_leaf) = Inl e" and "extends t (snd (add_node t d is_leaf))"
  | (ok) t1 n tlev where "fst (add_node t d is_leaf) = Inr None"
      and "wf_tree t1" and "extends t t1" and "n < length (heap t1)"
      and "\<not> holds_data (heap t1 ! n)"
      and "resolve t1 (top_node t) (normal_path (dn d)) = Some n"
      and "heap (snd (add_node t d is_leaf)) =
           (if is_leaf then (heap t1)[n := (heap t1 ! n)\<lparr>data := Some d, toplevel := tlev\<rparr>]
            else (heap t1)[n := (heap t1 ! n)\<lparr>data := Some d, toplevel := tlev, descendants := Some {}\<rparr>])"
      and "branches (snd (add_node t d is_leaf)) = (if is_leaf then branches t else insert n (branches t))"
      and "petrified (snd (add_node t d is_leaf)) = petrified t"
proof (cases "fst (add_node t d is_leaf)")
  case (Inl e)
  have top: "top_node t < length (heap t)" using wf by (simp add: wf_tree_def)
  have "extends t (snd (add_node t d is_leaf))"
  proof (cases "petrified t")
    case True
    then show ?thesis by (simp add: add_node_def priv_add_node_unfold extends_refl)
  next
    case False
    obtain t1 n tlev where d: "descend t (top_node t) True (normal_path (dn d)) = (t1, n, tlev)"
      by (cases "descend t (top_node t) True (normal_path (dn d))")
    have "holds_data (heap t1 ! n)"
      using Inl False d by (auto simp: add_node_def priv_add_node_unfold split: if_splits)
    then have "snd (add_node t d is_leaf) = t1"
      using False d by (simp add: add_node_def priv_add_node_unfold)
    then show ?thesis using descend_facts [OF wf top d] by simp
  qed
  then show ?thesis by (rule fail [OF Inl])
next
  case (Inr r)
  have top: "top_node t < length (heap t)" using wf by (simp add: wf_tree_def)
  from add_node_success [OF wf Inr]
  obtain t1 n tlev where d: "descend t (top_node t) True (normal_path (dn d)) = (t1, n, tlev)"
    and nh: "\<not> holds_data (heap t1 ! n)" and r: "r = None"
    and h: "heap (snd (add_node t d is_leaf)) =
           (if is_leaf then (heap t1)[n := (heap t1 ! n)\<lparr>data := Some d, toplevel := tlev\<rparr>]
            else (heap t1)[n := (heap t1 ! n)\<lparr>data := Some d, toplevel := tlev, descendants := Some {}\<rparr>])"
    and b: "branches (snd (add_node t d is_leaf)) = (if is_leaf then branches t1 else insert n (branches t1))"
    and p: "petrified (snd (add_node t d is_leaf)) = petrified t1"
    by metis
  from descend_facts [OF wf top d]
  have wf1: "wf_tree t1" and nl: "n < length (heap t1)" and ex: "extends t t1"
    and res: "resolve t1 (top_node t) (normal_path (dn d)) = Some n"
    by simp_all
  have b': "branches (snd (add_node t d is_leaf)) = (if is_leaf then branches t else insert n (branches t))"
    using b extends_frame(4) [OF ex] by simp
  have p': "petrified (snd (add_node t d is_leaf)) = petrified t"
    using p extends_frame(5) [OF ex] by simp
  show ?thesis using Inr r by (intro ok [OF _ wf1 ex nl nh res h b' p']) simp
qed

lemma add_node_top: "wf_tree t \<Longrightarrow> top_node (snd (add_node t d is_leaf)) = 0"
  using add_node_wf [of t d is_leaf] by (simp add: wf_tree_def)

text \<open>A path that resolves keeps resolving to the same node.\<close>

lemma resolve_add_node:
  assumes wf: "wf_tree t" and r: "resolve t 0 p = Some m"
  shows "resolve (snd (add_node t d is_leaf)) 0 p = Some m"
proof -
  have z: "0 < length (heap t)" using wf by (simp add: wf_tree_def)
  show ?thesis
  proof (cases rule: add_node_effect [OF wf, where d = d and is_leaf = is_leaf, case_names fail ok])
    case (fail e)
    show ?thesis by (rule resolve_extends [OF wf fail(2) z r])
  next
    case (ok t1 n tlev)
    have r1: "resolve t1 0 p = Some m" by (rule resolve_extends [OF wf ok(3) z r])
    have ch: "children (heap (snd (add_node t d is_leaf)) ! k) = children (heap t1 ! k)" for k
      unfolding ok(7) by (simp add: children_list_update)
    show ?thesis using resolve_children_cong [of "snd (add_node t d is_leaf)" t1, OF ch] r1 by simp
  qed
qed

text \<open>A payload stays a payload, and a branch stays a branch.\<close>

lemma add_node_keeps:
  assumes wf: "wf_tree t" and n: "m < length (heap t)"
  shows "m < length (heap (snd (add_node t d is_leaf)))"
    and "data (heap t ! m) \<noteq> None \<Longrightarrow> data (heap (snd (add_node t d is_leaf)) ! m) \<noteq> None"
    and "m \<in> branches t \<Longrightarrow> m \<in> branches (snd (add_node t d is_leaf))"
proof -
  have "m < length (heap (snd (add_node t d is_leaf))) \<and>
        (data (heap t ! m) \<noteq> None \<longrightarrow> data (heap (snd (add_node t d is_leaf)) ! m) \<noteq> None) \<and>
        (m \<in> branches t \<longrightarrow> m \<in> branches (snd (add_node t d is_leaf)))"
  proof (cases rule: add_node_effect [OF wf, where d = d and is_leaf = is_leaf, case_names fail ok])
    case (fail e)
    show ?thesis
      using extends_length [OF fail(2) n] extends_data [OF fail(2) n] extends_frame(4) [OF fail(2)]
      by simp
  next
    case (ok t1 k tlev)
    have m1: "m < length (heap t1)" by (rule extends_length [OF ok(3) n])
    have d1: "data (heap t1 ! m) = data (heap t ! m)" by (rule extends_data [OF ok(3) n])
    have "data (heap (snd (add_node t d is_leaf)) ! m) = (if m = k then Some d else data (heap t1 ! m))"
      unfolding ok(7) using m1 by (simp add: nth_list_update)
    then show ?thesis using m1 d1 ok(7,8) by auto
  qed
  then show "m < length (heap (snd (add_node t d is_leaf)))"
    and "data (heap t ! m) \<noteq> None \<Longrightarrow> data (heap (snd (add_node t d is_leaf)) ! m) \<noteq> None"
    and "m \<in> branches t \<Longrightarrow> m \<in> branches (snd (add_node t d is_leaf))"
    by simp_all
qed

text \<open>A branch that a call registers is the destination of that call, declared a branch.\<close>

lemma add_node_new_branch:
  assumes wf: "wf_tree t" and m: "m \<in> branches (snd (add_node t d is_leaf))" and o: "m \<notin> branches t"
  shows "fst (add_node t d is_leaf) = Inr None \<and> \<not> is_leaf \<and>
         resolve (snd (add_node t d is_leaf)) 0 (normal_path (dn d)) = Some m"
proof (cases rule: add_node_effect [OF wf, where d = d and is_leaf = is_leaf, case_names fail ok])
  case (fail e)
  then show ?thesis using m o extends_frame(4) [OF fail(2)] by simp
next
  case (ok t1 n tlev)
  have mn: "m = n" and l: "\<not> is_leaf" using m o ok(8) by (auto split: if_splits)
  have z: "top_node t = 0" using wf by (simp add: wf_tree_def)
  have ch: "children (heap (snd (add_node t d is_leaf)) ! k) = children (heap t1 ! k)" for k
    unfolding ok(7) by (simp add: children_list_update)
  have "resolve (snd (add_node t d is_leaf)) 0 (normal_path (dn d)) = Some n"
    using resolve_children_cong [of "snd (add_node t d is_leaf)" t1, OF ch] ok(6) z by simp
  then show ?thesis using ok(1) mn l by simp
qed

section \<open>Trees in which every payload is truthy\<close>

lemma truthy_tree_init: "truthy_tree LdapTree_init"
  using wf_tree_init by (simp add: truthy_tree_def LdapTree_init_def LdapNode_init_def)

lemma truthy_tree_extends:
  assumes tt: "truthy_tree t" and ex: "extends t t1" and wf1: "wf_tree t1"
  shows "truthy_tree t1"
proof -
  have a: "truthy e" if "n < length (heap t1)" "data (heap t1 ! n) = Some e" for n e
  proof (cases "n < length (heap t)")
    case True
    then show ?thesis using that tt extends_data [OF ex True] by (simp add: truthy_tree_def)
  next
    case False
    then show ?thesis using that extends_new [OF ex, of n] by simp
  qed
  have b: "data (heap t1 ! n) \<noteq> None" if "n < length (heap t1)" "descendants (heap t1 ! n) \<noteq> None" for n
  proof (cases "n < length (heap t)")
    case True
    then show ?thesis
      using that tt extends_data [OF ex True] extends_descendants [OF ex True]
      by (simp add: truthy_tree_def)
  next
    case False
    then show ?thesis using that extends_new [OF ex, of n] by simp
  qed
  have "\<not> petrified t1" using tt extends_frame(5) [OF ex] by (simp add: truthy_tree_def)
  then show ?thesis unfolding truthy_tree_def using wf1 a b by blast
qed

text \<open>In such a tree a node that holds no data has no payload and is no branch.\<close>

lemma truthy_tree_empty_node:
  assumes tt: "truthy_tree t" and n: "n < length (heap t)" and nh: "\<not> holds_data (heap t ! n)"
  shows "data (heap t ! n) = None" and "descendants (heap t ! n) = None" and "n \<notin> branches t"
proof -
  show d: "data (heap t ! n) = None"
  proof (cases "data (heap t ! n)")
    case None
    then show ?thesis .
  next
    case (Some e)
    then have "truthy e" using tt n by (simp add: truthy_tree_def)
    then show ?thesis using nh Some by (simp add: holds_data_def)
  qed
  show s: "descendants (heap t ! n) = None"
    using tt n d unfolding truthy_tree_def by blast
  show "n \<notin> branches t" using tt s by (simp add: truthy_tree_def wf_tree_def)
qed

lemma truthy_tree_add:
  assumes tt: "truthy_tree t" and td: "truthy d"
  shows "truthy_tree (snd (add_node t d is_leaf))"
proof -
  have wf: "wf_tree t" using tt by (simp add: truthy_tree_def)
  have wf': "wf_tree (snd (add_node t d is_leaf))" by (rule add_node_wf [OF wf])
  show ?thesis
  proof (cases rule: add_node_effect [OF wf, where d = d and is_leaf = is_leaf, case_names fail ok])
    case (fail e)
    show ?thesis by (rule truthy_tree_extends [OF tt fail(2) wf'])
  next
    case (ok t1 n tlev)
    have t1: "truthy_tree t1" by (rule truthy_tree_extends [OF tt ok(3,2)])
    let ?t' = "snd (add_node t d is_leaf)"
    have len: "length (heap ?t') = length (heap t1)" unfolding ok(7) by simp
    have da: "data (heap ?t' ! k) = (if k = n then Some d else data (heap t1 ! k))"
      if "k < length (heap t1)" for k
      unfolding ok(7) using that by (simp add: nth_list_update)
    have de: "k \<noteq> n \<Longrightarrow> descendants (heap ?t' ! k) = descendants (heap t1 ! k)"
      if "k < length (heap t1)" for k
      unfolding ok(7) using that by (simp add: nth_list_update)
    have a: "truthy e" if "k < length (heap ?t')" "data (heap ?t' ! k) = Some e" for k e
      using that da [of k] len t1 td by (auto simp: truthy_tree_def split: if_splits)
    have b: "data (heap ?t' ! k) \<noteq> None" if "k < length (heap ?t')" "descendants (heap ?t' ! k) \<noteq> None" for k
    proof (cases "k = n")
      case True
      then show ?thesis using da [of k] that len by simp
    next
      case False
      then show ?thesis using da [of k] de [of k] that len t1 by (simp add: truthy_tree_def)
    qed
    have "\<not> petrified ?t'" using ok(9) tt by (simp add: truthy_tree_def)
    then show ?thesis unfolding truthy_tree_def using wf' a b by blast
  qed
qed

text \<open>A node with a payload is not the destination of a later call that returns.\<close>

lemma truthy_tree_untouched:
  assumes tt: "truthy_tree t" and m: "m < length (heap t)" and d: "data (heap t ! m) \<noteq> None"
  shows "m \<in> branches (snd (add_node t d' is_leaf)) \<longleftrightarrow> m \<in> branches t"
proof -
  have wf: "wf_tree t" using tt by (simp add: truthy_tree_def)
  show ?thesis
  proof (cases rule: add_node_effect [OF wf, where d = d' and is_leaf = is_leaf, case_names fail ok])
    case (fail e)
    then show ?thesis using extends_frame(4) [OF fail(2)] by simp
  next
    case (ok t1 n tlev)
    have t1: "truthy_tree t1" by (rule truthy_tree_extends [OF tt ok(3,2)])
    have "data (heap t1 ! n) = None" by (rule truthy_tree_empty_node(1) [OF t1 ok(4,5)])
    moreover have "data (heap t1 ! m) \<noteq> None" using extends_data [OF ok(3) m] d by simp
    ultimately have "m \<noteq> n" by auto
    then show ?thesis using ok(8) by simp
  qed
qed

text \<open>The destination of a call that declares a leaf and returns is no branch afterwards.\<close>

lemma truthy_tree_leaf:
  assumes tt: "truthy_tree t" and s: "fst (add_node t d True) = Inr r"
    and r: "resolve (snd (add_node t d True)) 0 (normal_path (dn d)) = Some m"
  shows "m \<notin> branches (snd (add_node t d True))"
proof -
  have wf: "wf_tree t" using tt by (simp add: truthy_tree_def)
  have z: "top_node t = 0" using wf by (simp add: wf_tree_def)
  show ?thesis
  proof (cases rule: add_node_effect [OF wf, where d = d and is_leaf = True, case_names fail ok])
    case (fail e)
    then show ?thesis using s by simp
  next
    case (ok t1 n tlev)
    have t1: "truthy_tree t1" by (rule truthy_tree_extends [OF tt ok(3,2)])
    have ch: "children (heap (snd (add_node t d True)) ! k) = children (heap t1 ! k)" for k
      unfolding ok(7) by (simp add: children_list_update)
    have "resolve (snd (add_node t d True)) 0 (normal_path (dn d)) = Some n"
      using resolve_children_cong [of "snd (add_node t d True)" t1, OF ch] ok(6) z by simp
    then have mn: "m = n" using r by simp
    have "n \<notin> branches t1" by (rule truthy_tree_empty_node(3) [OF t1 ok(4,5)])
    then show ?thesis using ok(8) mn extends_frame(4) [OF ok(3)] by simp
  qed
qed

section \<open>Sequences of insertions\<close>

lemma run_adds_snoc: "run_adds t (cs @ [(d, l)]) = snd (add_node (run_adds t cs) d l)"
  by (induction cs arbitrary: t) auto

lemma succeeded_snoc_old: "j < length cs \<Longrightarrow> succeeded (cs @ [c]) j = succeeded cs j"
  by (simp add: succeeded_def nth_append)

lemma path_of_snoc_old: "j < length cs \<Longrightarrow> path_of (cs @ [c]) j = path_of cs j"
  by (simp add: path_of_def nth_append)

lemma succeeded_snoc_new:
  "succeeded (cs @ [(d, l)]) (length cs) \<longleftrightarrow>
     (\<exists>r. fst (add_node (run_adds LdapTree_init cs) d l) = Inr r)"
  by (simp add: succeeded_def split: sum.splits)

lemma path_of_snoc_new: "path_of (cs @ [(d, l)]) (length cs) = normal_path (dn d)"
  by (simp add: path_of_def)

lemma run_adds_wf: "wf_tree (run_adds LdapTree_init cs)"
  by (rule reachable_wf [OF reachable_run_adds [OF r_init]])

text \<open>
  After any sequence of insertions: every branch is the destination of a call that
  returned and declared a branch; the destination of every call that returned still
  resolves, has a payload, and is a branch when the call declared one.
\<close>

lemma run_adds_branches:
  "(\<forall>m \<in> branches (run_adds LdapTree_init cs).
      \<exists>j < length cs. \<not> snd (cs ! j) \<and> succeeded cs j \<and>
         resolve (run_adds LdapTree_init cs) 0 (path_of cs j) = Some m) \<and>
   (\<forall>j < length cs. succeeded cs j \<longrightarrow>
      (\<exists>n < length (heap (run_adds LdapTree_init cs)).
         resolve (run_adds LdapTree_init cs) 0 (path_of cs j) = Some n \<and>
         data (heap (run_adds LdapTree_init cs) ! n) \<noteq> None \<and>
         (\<not> snd (cs ! j) \<longrightarrow> n \<in> branches (run_adds LdapTree_init cs))))"
proof (induction cs rule: rev_induct)
  case Nil
  show ?case by (simp add: LdapTree_init_def)
next
  case (snoc c cs)
  obtain d l where c: "c = (d, l)" by (cases c)
  let ?t = "run_adds LdapTree_init cs"
  let ?t' = "snd (add_node ?t d l)"
  have t': "run_adds LdapTree_init (cs @ [c]) = ?t'" using c by (simp add: run_adds_snoc)
  have wf: "wf_tree ?t" by (rule run_adds_wf)
  from snoc.IH have B: "\<And>m. m \<in> branches ?t \<Longrightarrow>
      \<exists>j < length cs. \<not> snd (cs ! j) \<and> succeeded cs j \<and> resolve ?t 0 (path_of cs j) = Some m"
    and C: "\<And>j. j < length cs \<Longrightarrow> succeeded cs j \<Longrightarrow>
      \<exists>n < length (heap ?t). resolve ?t 0 (path_of cs j) = Some n \<and> data (heap ?t ! n) \<noteq> None \<and>
         (\<not> snd (cs ! j) \<longrightarrow> n \<in> branches ?t)"
    by blast+
  have B': "\<exists>j < length (cs @ [c]). \<not> snd ((cs @ [c]) ! j) \<and> succeeded (cs @ [c]) j \<and>
         resolve ?t' 0 (path_of (cs @ [c]) j) = Some m" if m: "m \<in> branches ?t'" for m
  proof (cases "m \<in> branches ?t")
    case True
    from B [OF True] obtain j where j: "j < length cs" "\<not> snd (cs ! j)" "succeeded cs j"
      "resolve ?t 0 (path_of cs j) = Some m" by blast
    have "resolve ?t' 0 (path_of cs j) = Some m" by (rule resolve_add_node [OF wf j(4)])
    then show ?thesis
      using j succeeded_snoc_old [OF j(1), of c] path_of_snoc_old [OF j(1), of c]
      by (intro exI [of _ j]) (simp add: nth_append)
  next
    case False
    from add_node_new_branch [OF wf m False]
    have "fst (add_node ?t d l) = Inr None" "\<not> l" "resolve ?t' 0 (normal_path (dn d)) = Some m"
      by blast+
    then show ?thesis
      using c succeeded_snoc_new [of cs d l] path_of_snoc_new [of cs d l]
      by (intro exI [of _ "length cs"]) simp
  qed
  have C': "\<exists>n < length (heap ?t'). resolve ?t' 0 (path_of (cs @ [c]) j) = Some n \<and>
         data (heap ?t' ! n) \<noteq> None \<and> (\<not> snd ((cs @ [c]) ! j) \<longrightarrow> n \<in> branches ?t')"
    if j: "j < length (cs @ [c])" and s: "succeeded (cs @ [c]) j" for j
  proof (cases "j < length cs")
    case True
    have "succeeded cs j" using s succeeded_snoc_old [OF True, of c] by simp
    from C [OF True this] obtain n where n: "n < length (heap ?t)"
      "resolve ?t 0 (path_of cs j) = Some n" "data (heap ?t ! n) \<noteq> None"
      "\<not> snd (cs ! j) \<longrightarrow> n \<in> branches ?t" by blast
    have "resolve ?t' 0 (path_of cs j) = Some n" by (rule resolve_add_node [OF wf n(2)])
    then show ?thesis
      using add_node_keeps [OF wf n(1), of d l] n(3,4) path_of_snoc_old [OF True, of c] True
      by (intro exI [of _ n]) (auto simp: nth_append)
  next
    case False
    then have jl: "j = length cs" using j by simp
    then obtain r where r: "fst (add_node ?t d l) = Inr r"
      using s c succeeded_snoc_new [of cs d l] by auto
    from add_node_success_dest [OF wf r] obtain n where n: "n < length (heap ?t')"
      "resolve ?t' (top_node ?t) (normal_path (dn d)) = Some n" "data (heap ?t' ! n) = Some d"
      by blast
    have z: "top_node ?t = 0" using wf by (simp add: wf_tree_def)
    have br: "\<not> l \<longrightarrow> n \<in> branches ?t'"
    proof
      assume nl: "\<not> l"
      show "n \<in> branches ?t'"
      proof (cases rule: add_node_effect [OF wf, where d = d and is_leaf = l, case_names fail ok])
        case (fail e)
        then show ?thesis using r by simp
      next
        case (ok t1 k tlev)
        have ch: "children (heap ?t' ! i) = children (heap t1 ! i)" for i
          unfolding ok(7) by (simp add: children_list_update)
        have "resolve ?t' 0 (normal_path (dn d)) = Some k"
          using resolve_children_cong [of ?t' t1, OF ch] ok(6) z by simp
        then have "n = k" using n(2) z by simp
        then show ?thesis using ok(8) nl by simp
      qed
    qed
    show ?thesis
      using n z br jl c path_of_snoc_new [of cs d l]
      by (intro exI [of _ n]) simp
  qed
  show ?case unfolding t' using B' C' by blast
qed

lemma run_adds_truthy:
  "\<forall>c \<in> set cs. truthy (fst c) \<Longrightarrow>
   truthy_tree (run_adds LdapTree_init cs) \<and>
   (\<forall>j < length cs. succeeded cs j \<longrightarrow> snd (cs ! j) \<longrightarrow>
      (\<forall>n. resolve (run_adds LdapTree_init cs) 0 (path_of cs j) = Some n \<longrightarrow>
           n \<notin> branches (run_adds LdapTree_init cs)))"
proof (induction cs rule: rev_induct)
  case Nil
  show ?case by (simp add: truthy_tree_init)
next
  case (snoc c cs)
  obtain d l where c: "c = (d, l)" by (cases c)
  let ?t = "run_adds LdapTree_init cs"
  let ?t' = "snd (add_node ?t d l)"
  have t': "run_adds LdapTree_init (cs @ [c]) = ?t'" using c by (simp add: run_adds_snoc)
  have wf: "wf_tree ?t" by (rule run_adds_wf)
  have td: "truthy d" using snoc.prems c by simp
  from snoc.IH snoc.prems have tt: "truthy_tree ?t"
    and L: "\<And>j n. j < length cs \<Longrightarrow> succeeded cs j \<Longrightarrow> snd (cs ! j) \<Longrightarrow>
              resolve ?t 0 (path_of cs j) = Some n \<Longrightarrow> n \<notin> branches ?t"
    by auto
  have tt': "truthy_tree ?t'" by (rule truthy_tree_add [OF tt td])
  have L': "n \<notin> branches ?t'"
    if j: "j < length (cs @ [c])" and s: "succeeded (cs @ [c]) j" and lf: "snd ((cs @ [c]) ! j)"
      and r: "resolve ?t' 0 (path_of (cs @ [c]) j) = Some n" for j n
  proof (cases "j < length cs")
    case True
    have s0: "succeeded cs j" using s succeeded_snoc_old [OF True, of c] by simp
    have l0: "snd (cs ! j)" using lf True by (simp add: nth_append)
    have r0: "resolve ?t' 0 (path_of cs j) = Some n" using r path_of_snoc_old [OF True, of c] by simp
    from run_adds_branches [of cs] True s0
    obtain n0 where n0: "n0 < length (heap ?t)" "resolve ?t 0 (path_of cs j) = Some n0"
      "data (heap ?t ! n0) \<noteq> None" by blast
    have "resolve ?t' 0 (path_of cs j) = Some n0" by (rule resolve_add_node [OF wf n0(2)])
    then have e: "n = n0" using r0 by simp
    have "n0 \<notin> branches ?t" by (rule L [OF True s0 l0 n0(2)])
    then show ?thesis using truthy_tree_untouched [OF tt n0(1,3), of d l] e by simp
  next
    case False
    then have jl: "j = length cs" using j by simp
    then have l: "l" using lf c by simp
    obtain r' where r': "fst (add_node ?t d True) = Inr r'"
      using s c jl l succeeded_snoc_new [of cs d l] by auto
    have "resolve (snd (add_node ?t d True)) 0 (normal_path (dn d)) = Some n"
      using r jl c l path_of_snoc_new [of cs d l] by simp
    from truthy_tree_leaf [OF tt r' this] show ?thesis using l by simp
  qed
  show ?case unfolding t' using tt' L' by blast
qed

lemma resolve_same_children:
  "wf_tree t \<Longrightarrow> (\<And>n. n < length (heap t) \<Longrightarrow> children (heap t' ! n) = children (heap t ! n)) \<Longrightarrow>
   node < length (heap t) \<Longrightarrow> resolve t node p = Some m \<Longrightarrow> resolve t' node p = Some m"
proof (induction p arbitrary: node)
  case Nil
  then show ?case by simp
next
  case (Cons name names)
  then obtain c where c: "children (heap t ! node) name = Some c" and r: "resolve t c names = Some m"
    by (auto split: option.splits)
  have cl: "c < length (heap t)" using wf_child [OF Cons.prems(1,3) c] by simp
  have "children (heap t' ! node) name = Some c" using Cons.prems(2) [OF Cons.prems(3)] c by simp
  then show ?case using Cons.IH [OF Cons.prems(1,2) cl r] by simp
qed

text \<open>An iteration that returns gives the registered branches and keeps the shape.\<close>

lemma iter_result_shape:
  assumes wf: "wf_tree t" and o: "set order = nodes_with_data t"
    and i: "iter t order = Some (Inr out, t')"
  shows "out = branches t" and "length (heap t') = length (heap t)" and "top_node t' = 0"
    and "\<And>n. n < length (heap t) \<Longrightarrow> children (heap t' ! n) = children (heap t ! n)"
    and "\<And>n. n < length (heap t) \<Longrightarrow> descendants (heap t' ! n) = None \<longleftrightarrow> descendants (heap t ! n) = None"
proof -
  have "\<exists>t1. same_shape t t1 \<and> heap t' = heap t1 \<and> top_node t' = top_node t1 \<and> branches t' = branches t1"
  proof (cases "petrified t")
    case True
    then have "t' = t" using i by (simp add: iter_def)
    then show ?thesis using same_shape_refl [of t] by blast
  next
    case False
    have sub: "set order \<subseteq> {n. n < length (heap t)}" using wf o by (auto simp: wf_tree_def)
    have p: "priv_petrify t order = Some (Inr (), t')"
      using False i by (auto simp: iter_def split: option.splits sum.splits prod.splits)
    from priv_petrify_cases [OF wf sub] p show ?thesis by (auto split: if_splits)
  qed
  then obtain t1 where sh: "same_shape t t1" and h: "heap t' = heap t1"
    and tp: "top_node t' = top_node t1" and b: "branches t' = branches t1" by blast
  show "out = branches t" using iter_sets_flag [OF i] b same_shape_frame(4) [OF sh] by simp
  show "length (heap t') = length (heap t)" using h same_shape_frame(1) [OF sh] by simp
  show "top_node t' = 0" using tp same_shape_frame(2) [OF sh] wf by (simp add: wf_tree_def)
  show "\<And>n. n < length (heap t) \<Longrightarrow> children (heap t' ! n) = children (heap t ! n)"
    using same_shape_fields(3) [OF sh] h by simp
  show "\<And>n. n < length (heap t) \<Longrightarrow> descendants (heap t' ! n) = None \<longleftrightarrow> descendants (heap t ! n) = None"
    using same_shape_fields(4) [OF sh] h by simp
qed

text \<open>
  C6, as stated: a node whose entry was added with \<^verbatim>\<open>is_leaf = True\<close> never appears
  in the result of the iteration. It may: add a falsy payload at \<^verbatim>\<open>dc=com\<close> as a
  branch, then a second entry at \<^verbatim>\<open>dc=com\<close> as a leaf. The second call returns (the
  node counts as empty), its destination is node 1, and node 1 is in the result.
\<close>

theorem leaf_insert_in_branch_set:
  "succeeded [(entry_falsy, False), (entry_com, True)] 1 \<and>
   snd ([(entry_falsy, False), (entry_com, True)] ! 1) \<and>
   resolve (run_adds LdapTree_init [(entry_falsy, False), (entry_com, True)]) 0
     (path_of [(entry_falsy, False), (entry_com, True)] 1) = Some 1 \<and>
   map_option fst (iter (run_adds LdapTree_init [(entry_falsy, False), (entry_com, True)]) [1])
     = Some (Inr {1})"
proof -
  have t: "run_adds LdapTree_init [(entry_falsy, False), (entry_com, True)]
         = snd (add_node tree_falsy entry_com True)"
    by (simp add: tree_falsy_def)
  have s: "fst (add_node tree_falsy entry_com True) = Inr None"
    by (simp add: tree_falsy_value add_node_def priv_add_node_unfold normal_path_def
        select_or_create_def holds_data_def entry_com_def entry_falsy_def)
  have v: "snd (add_node tree_falsy entry_com True) =
    \<lparr>heap = [
       \<lparr>parent = None, children = [''dc=com'' \<mapsto> 1], descendants = None, data = None,
        toplevel = True\<rparr>,
       \<lparr>parent = Some 0, children = Map.empty, descendants = Some {}, data = Some entry_com,
        toplevel = True\<rparr>],
     top_node = 0, nodes_with_data = {1}, branches = {1}, petrified = False\<rparr>"
    by (simp add: tree_falsy_value add_node_def priv_add_node_unfold normal_path_def
        select_or_create_def holds_data_def entry_com_def entry_falsy_def)
  have 1: "succeeded [(entry_falsy, False), (entry_com, True)] 1"
    using s by (simp add: succeeded_def tree_falsy_def)
  have 2: "resolve (snd (add_node tree_falsy entry_com True)) 0
     (path_of [(entry_falsy, False), (entry_com, True)] 1) = Some 1"
    unfolding v by (simp add: path_of_def normal_path_def entry_com_def)
  have 3: "map_option fst (iter (snd (add_node tree_falsy entry_com True)) [1]) = Some (Inr {1})"
    unfolding v by (simp add: iter_def priv_petrify_def walk_up.simps)
  show ?thesis using 1 2 3 unfolding t by simp
qed

text \<open>
  C6, amended. Run any sequence of \<^verbatim>\<open>add_node\<close> calls from the empty tree and
  iterate. The destination of every call that returned with \<^verbatim>\<open>is_leaf = False\<close> is in
  the result; every node of the result is the destination of such a call; the nodes with
  a descendant set are the nodes of the result; and when all payloads are truthy, the
  destination of a call that returned with \<^verbatim>\<open>is_leaf = True\<close> is not in the result.
\<close>

theorem branch_set_is_declared_branches:
  assumes "set order = nodes_with_data (run_adds LdapTree_init cs)"
    and "iter (run_adds LdapTree_init cs) order = Some (Inr out, t')"
  shows "(\<forall>j < length cs. succeeded cs j \<and> \<not> snd (cs ! j) \<longrightarrow>
            (\<exists>n \<in> out. resolve t' (top_node t') (path_of cs j) = Some n)) \<and>
         (\<forall>m \<in> out. \<exists>j < length cs. succeeded cs j \<and> \<not> snd (cs ! j) \<and>
            resolve t' (top_node t') (path_of cs j) = Some m) \<and>
         (\<forall>m < length (heap t'). descendants (heap t' ! m) \<noteq> None \<longleftrightarrow> m \<in> out) \<and>
         ((\<forall>c \<in> set cs. truthy (fst c)) \<longrightarrow>
            (\<forall>j < length cs. succeeded cs j \<and> snd (cs ! j) \<longrightarrow>
               (\<exists>n. resolve t' (top_node t') (path_of cs j) = Some n \<and> n \<notin> out)))"
proof -
  let ?t = "run_adds LdapTree_init cs"
  have wf: "wf_tree ?t" by (rule run_adds_wf)
  have z: "0 < length (heap ?t)" using wf by (simp add: wf_tree_def)
  note sh = iter_result_shape [OF wf assms]
  have res: "resolve t' (top_node t') p = Some m" if "resolve ?t 0 p = Some m" for p m
    using resolve_same_children [OF wf sh(4) z that] sh(3) by simp
  from run_adds_branches [of cs] have B: "\<And>m. m \<in> branches ?t \<Longrightarrow>
      \<exists>j < length cs. \<not> snd (cs ! j) \<and> succeeded cs j \<and> resolve ?t 0 (path_of cs j) = Some m"
    and C: "\<And>j. j < length cs \<Longrightarrow> succeeded cs j \<Longrightarrow>
      \<exists>n < length (heap ?t). resolve ?t 0 (path_of cs j) = Some n \<and> data (heap ?t ! n) \<noteq> None \<and>
         (\<not> snd (cs ! j) \<longrightarrow> n \<in> branches ?t)"
    by blast+
  have 1: "\<exists>n \<in> out. resolve t' (top_node t') (path_of cs j) = Some n"
    if "j < length cs" "succeeded cs j" "\<not> snd (cs ! j)" for j
    using C [OF that(1,2)] that(3) res sh(1) by blast
  have 2: "\<exists>j < length cs. succeeded cs j \<and> \<not> snd (cs ! j) \<and>
            resolve t' (top_node t') (path_of cs j) = Some m" if "m \<in> out" for m
    using B [of m] that res sh(1) by blast
  have 3: "descendants (heap t' ! m) \<noteq> None \<longleftrightarrow> m \<in> out" if "m < length (heap t')" for m
  proof -
    have m: "m < length (heap ?t)" using that sh(2) by simp
    have "m \<in> branches ?t \<longleftrightarrow> descendants (heap ?t ! m) \<noteq> None"
      using wf m by (simp add: wf_tree_def)
    then show ?thesis using sh(5) [OF m] sh(1) by simp
  qed
  have 4: "\<exists>n. resolve t' (top_node t') (path_of cs j) = Some n \<and> n \<notin> out"
    if tr: "\<forall>c \<in> set cs. truthy (fst c)" and j: "j < length cs" "succeeded cs j" "snd (cs ! j)" for j
  proof -
    from C [OF j(1,2)] obtain n where n: "resolve ?t 0 (path_of cs j) = Some n" by blast
    have "n \<notin> branches ?t" using run_adds_truthy [OF tr] j n by blast
    then show ?thesis using res [OF n] sh(1) by blast
  qed
  show ?thesis using 1 2 3 4 by blast
qed

theorem branch_set_is_declared_branches_witness:
  "\<exists>t'. iter tree_family [4, 2, 1] = Some (Inr {1}, t') \<and>
     resolve t' (top_node t') (normal_path (dn entry_com)) = Some 1 \<and>
     (\<exists>n. resolve t' (top_node t') (normal_path (dn entry_alice)) = Some n \<and> n \<notin> {1})"
proof -
  let ?cs = "[(entry_alice, True), (entry_example, True), (entry_com, False)]"
  define t1 where "t1 = snd (the (priv_petrify tree_family [4, 2, 1]))"
  have tf: "tree_family = run_adds LdapTree_init ?cs" by (simp add: tree_family_def)
  have np: "\<not> petrified tree_family" by (simp add: tree_family_value)
  have e: "iter tree_family [4, 2, 1] = Some (Inr (branches t1), t1)"
    unfolding t1_def by (rule iter_first [OF np tree_family_petrify])
  have b: "branches t1 = {1}"
    unfolding t1_def
    by (simp add: tree_family_value priv_petrify_def walk_up.simps holds_data_def
        entry_alice_def entry_example_def entry_com_def)
  have e1: "iter (run_adds LdapTree_init ?cs) [4, 2, 1] = Some (Inr {1}, t1)"
    using e b tf by simp
  have o: "set [4, 2, 1] = nodes_with_data (run_adds LdapTree_init ?cs)"
    unfolding tf [symmetric] by (auto simp: tree_family_value)
  have tr: "\<forall>c \<in> set ?cs. truthy (fst c)"
    by (simp add: entry_alice_def entry_example_def entry_com_def)
  have s0: "succeeded ?cs 0"
    by (simp add: succeeded_def add_node_def priv_add_node_unfold normal_path_def
        select_or_create_def LdapTree_init_def LdapNode_init_def holds_data_def entry_alice_def)
  have s2: "succeeded ?cs 2"
    by (simp add: succeeded_def eval_nat_numeral add_node_def priv_add_node_unfold normal_path_def
        select_or_create_def LdapTree_init_def LdapNode_init_def holds_data_def
        entry_alice_def entry_example_def entry_com_def)
  note th = branch_set_is_declared_branches [OF o e1]
  from th have "\<exists>n \<in> {1}. resolve t1 (top_node t1) (path_of ?cs 2) = Some n"
    using s2 by simp
  then have 1: "resolve t1 (top_node t1) (normal_path (dn entry_com)) = Some 1"
    by (simp add: path_of_def)
  from th tr have "\<exists>n. resolve t1 (top_node t1) (path_of ?cs 0) = Some n \<and> n \<notin> {1}"
    using s0 by simp
  then have 2: "\<exists>n. resolve t1 (top_node t1) (normal_path (dn entry_alice)) = Some n \<and> n \<notin> {1}"
    by (simp add: path_of_def)
  show ?thesis using e1 1 2 tf by auto
qed

end
